theory Spec2Isabelle
  imports Complex_Main
begin

section \<open>The red-black tree map of \<^verbatim>\<open>src/map.hpp\<close> over an explicit store\<close>

text \<open>
  The container is a pointer structure: nodes carry \<^verbatim>\<open>left\<close>, \<^verbatim>\<open>right\<close> and
  \<^verbatim>\<open>parent\<close> pointers and are rewired in place. The model keeps the pointers: a node
  pointer is an \<open>addr option\<close> (\<open>None\<close> is \<^verbatim>\<open>nullptr\<close>), the free store is a partial
  map from addresses to nodes, and a \<^verbatim>\<open>map\<close> object lives at an address of its own, so
  that \<^verbatim>\<open>this\<close> and the \<^verbatim>\<open>container\<close> pointer of an iterator can be compared.

  Every operation returns an \<open>('a, 's) result option\<close>:
  \<^item> \<open>None\<close>: a loop of the source does not terminate;
  \<^item> \<open>Some (Ok a)\<close>: normal return with value \<open>a\<close> (the new state is part of \<open>a\<close>);
  \<^item> \<open>Some (Raise e s)\<close>: the C++ exception \<open>e\<close> is thrown, leaving state \<open>s\<close>;
  \<^item> \<open>Some Fault\<close>: undefined behaviour, a read or write through \<^verbatim>\<open>nullptr\<close> or
    through a pointer to a node that is not allocated.

  Addresses and \<^verbatim>\<open>size_t\<close> are natural numbers: \<^verbatim>\<open>new\<close> never fails, and the counter
  \<^verbatim>\<open>tree_size\<close> is incremented once per allocated node, so it does not wrap before
  the address space is exhausted. The comparator \<^verbatim>\<open>comp\<close>, here \<open>cmp\<close>, is a parameter of the
  operations that use it.
\<close>

type_synonym addr = nat
type_synonym mid = nat

datatype exn = invalid_iterator | index_out_of_bound

datatype ('a, 's) result = Ok 'a | Raise exn 's | Fault

abbreviation ok :: "'a \<Rightarrow> ('a, 's) result option" where
  "ok a \<equiv> Some (Ok a)"

abbreviation fault :: "('a, 's) result option" where
  "fault \<equiv> Some Fault"

text \<open>Sequencing: the rest of the function runs on a normal return only.\<close>

definition bnd :: "('a, 's) result option \<Rightarrow> ('a \<Rightarrow> ('b, 's) result option) \<Rightarrow> ('b, 's) result option" where
  "bnd m f = (case m of None \<Rightarrow> None
              | Some (Ok a) \<Rightarrow> f a
              | Some (Raise e s) \<Rightarrow> Some (Raise e s)
              | Some Fault \<Rightarrow> Some Fault)"

lemma bnd_mono [partial_function_mono]:
  fixes B :: "('p \<Rightarrow> 'q option) \<Rightarrow> ('a, 's) result option"
  assumes "mono_option B" and "\<And>y. mono_option (\<lambda>f. C y f)"
  shows "mono_option (\<lambda>f. bnd (B f) (\<lambda>y. C y f))"
proof (rule monotoneI)
  fix f g :: "'p \<Rightarrow> 'q option"
  assume le: "fun_ord option_ord f g"
  have 1: "option_ord (B f) (B g)"
    using assms(1) le by (simp add: monotone_on_def)
  have 2: "option_ord (C y f) (C y g)" for y
    using assms(2) le by (simp add: monotone_on_def)
  show "option_ord (bnd (B f) (\<lambda>y. C y f)) (bnd (B g) (\<lambda>y. C y g))"
  proof (cases "B f")
    case None
    then show ?thesis by (simp add: bnd_def flat_ord_def)
  next
    case (Some r)
    with 1 have "B g = Some r" by (simp add: flat_ord_def)
    with Some 2 show ?thesis by (cases r) (simp_all add: bnd_def flat_ord_def)
  qed
qed

subsection \<open>Nodes and the free store\<close>

text \<open>\<^verbatim>\<open>struct Node\<close>: \<^verbatim>\<open>data\<close> is the pair (\<open>data_first\<close>, \<open>data_second\<close>); \<open>color\<close> is
  \<open>True\<close> for red and \<open>False\<close> for black.\<close>

record ('k, 'v) node =
  data_first :: 'k
  data_second :: 'v
  left :: "addr option"
  right :: "addr option"
  parent :: "addr option"
  color :: bool

type_synonym ('k, 'v) heap = "addr \<Rightarrow> ('k, 'v) node option"

text \<open>\<open>fld f h p\<close> is the read \<^verbatim>\<open>p->f\<close>, \<open>upd g h p\<close> a write to a field of \<^verbatim>\<open>*p\<close>.\<close>

definition fld :: "(('k, 'v) node \<Rightarrow> 'a) \<Rightarrow> ('k, 'v) heap \<Rightarrow> addr option \<Rightarrow> ('a, 's) result option" where
  "fld f h p = (case p of None \<Rightarrow> fault
                | Some a \<Rightarrow> (case h a of None \<Rightarrow> fault | Some n \<Rightarrow> ok (f n)))"

definition upd :: "(('k, 'v) node \<Rightarrow> ('k, 'v) node) \<Rightarrow> ('k, 'v) heap \<Rightarrow> addr option \<Rightarrow> (('k, 'v) heap, 's) result option" where
  "upd g h p = (case p of None \<Rightarrow> fault
                | Some a \<Rightarrow> (case h a of None \<Rightarrow> fault | Some n \<Rightarrow> ok (h(a \<mapsto> g n))))"

definition set_left :: "('k, 'v) heap \<Rightarrow> addr option \<Rightarrow> addr option \<Rightarrow> (('k, 'v) heap, 's) result option" where
  "set_left h p v = upd (\<lambda>n. n\<lparr>left := v\<rparr>) h p"

definition set_right :: "('k, 'v) heap \<Rightarrow> addr option \<Rightarrow> addr option \<Rightarrow> (('k, 'v) heap, 's) result option" where
  "set_right h p v = upd (\<lambda>n. n\<lparr>right := v\<rparr>) h p"

definition set_parent :: "('k, 'v) heap \<Rightarrow> addr option \<Rightarrow> addr option \<Rightarrow> (('k, 'v) heap, 's) result option" where
  "set_parent h p v = upd (\<lambda>n. n\<lparr>parent := v\<rparr>) h p"

definition set_color :: "('k, 'v) heap \<Rightarrow> addr option \<Rightarrow> bool \<Rightarrow> (('k, 'v) heap, 's) result option" where
  "set_color h p v = upd (\<lambda>n. n\<lparr>color := v\<rparr>) h p"

text \<open>\<^verbatim>\<open>new Node(val, p)\<close>: the constructor makes a red node without children. The
  allocator hands out the address \<open>nx\<close> and moves on to \<open>Suc nx\<close>.\<close>

definition new_Node :: "('k, 'v) heap \<Rightarrow> addr \<Rightarrow> 'k \<times> 'v \<Rightarrow> addr option \<Rightarrow> ('k, 'v) heap \<times> addr \<times> addr option" where
  "new_Node h nx val p =
     (h(nx \<mapsto> \<lparr>data_first = fst val, data_second = snd val, left = None, right = None,
                parent = p, color = True\<rparr>), Suc nx, Some nx)"

text \<open>\<^verbatim>\<open>delete p\<close> for a non-null \<open>p\<close>.\<close>

definition delete :: "('k, 'v) heap \<Rightarrow> addr option \<Rightarrow> (('k, 'v) heap, 's) result option" where
  "delete h p = (case p of None \<Rightarrow> fault
                 | Some a \<Rightarrow> (case h a of None \<Rightarrow> fault | Some n \<Rightarrow> ok (h(a := None))))"

subsection \<open>Rotations\<close>

text \<open>The private helpers work on the store \<open>h\<close> and the member \<^verbatim>\<open>root\<close>, here \<open>rt\<close>,
  and return both.\<close>

definition leftRotate :: "('k, 'v) heap \<Rightarrow> addr option \<Rightarrow> addr option \<Rightarrow> (('k, 'v) heap \<times> addr option, 's) result option" where
  "leftRotate h rt x =
     bnd (fld right h x) (\<lambda>y.
     bnd (fld left h y) (\<lambda>yl.
     bnd (set_right h x yl) (\<lambda>h.
     bnd (fld left h y) (\<lambda>yl.
     bnd (if yl \<noteq> None then set_parent h yl x else ok h) (\<lambda>h.
     bnd (fld parent h x) (\<lambda>xp.
     bnd (set_parent h y xp) (\<lambda>h.
     bnd (fld parent h x) (\<lambda>xp.
     bnd (if xp = None then ok (h, y)
          else bnd (fld left h xp) (\<lambda>xpl.
               if x = xpl then bnd (set_left h xp y) (\<lambda>h. ok (h, rt))
               else bnd (set_right h xp y) (\<lambda>h. ok (h, rt)))) (\<lambda>(h, rt).
     bnd (set_left h y x) (\<lambda>h.
     bnd (set_parent h x y) (\<lambda>h.
     ok (h, rt))))))))))))"

definition rightRotate :: "('k, 'v) heap \<Rightarrow> addr option \<Rightarrow> addr option \<Rightarrow> (('k, 'v) heap \<times> addr option, 's) result option" where
  "rightRotate h rt x =
     bnd (fld left h x) (\<lambda>y.
     bnd (fld right h y) (\<lambda>yr.
     bnd (set_left h x yr) (\<lambda>h.
     bnd (fld right h y) (\<lambda>yr.
     bnd (if yr \<noteq> None then set_parent h yr x else ok h) (\<lambda>h.
     bnd (fld parent h x) (\<lambda>xp.
     bnd (set_parent h y xp) (\<lambda>h.
     bnd (fld parent h x) (\<lambda>xp.
     bnd (if xp = None then ok (h, y)
          else bnd (fld right h xp) (\<lambda>xpr.
               if x = xpr then bnd (set_right h xp y) (\<lambda>h. ok (h, rt))
               else bnd (set_left h xp y) (\<lambda>h. ok (h, rt)))) (\<lambda>(h, rt).
     bnd (set_right h y x) (\<lambda>h.
     bnd (set_parent h x y) (\<lambda>h.
     ok (h, rt))))))))))))"

subsection \<open>Insert fix-up\<close>

text \<open>The body of the \<^verbatim>\<open>while\<close> loop of \<^verbatim>\<open>fixInsert\<close>; it returns the store, the root
  and the new \<open>z\<close>.\<close>

definition fixInsert_body :: "('k, 'v) heap \<Rightarrow> addr option \<Rightarrow> addr option \<Rightarrow> (('k, 'v) heap \<times> addr option \<times> addr option, 's) result option" where
  "fixInsert_body h rt z =
     bnd (fld parent h z) (\<lambda>zp.
     bnd (bnd (fld parent h zp) (fld left h)) (\<lambda>zppl.
     if zp = zppl then
       bnd (bnd (fld parent h zp) (fld right h)) (\<lambda>y.
       bnd (if y \<noteq> None then fld color h y else ok False) (\<lambda>yred.
       if yred then
         bnd (bnd (fld parent h z) (\<lambda>zp. set_color h zp False)) (\<lambda>h.
         bnd (set_color h y False) (\<lambda>h.
         bnd (bnd (bnd (fld parent h z) (fld parent h)) (\<lambda>zpp. set_color h zpp True)) (\<lambda>h.
         bnd (bnd (fld parent h z) (fld parent h)) (\<lambda>zpp.
         ok (h, rt, zpp)))))
       else
         bnd (bnd (fld parent h z) (fld right h)) (\<lambda>zpr.
         bnd (if z = zpr
              then bnd (fld parent h z) (\<lambda>z. bnd (leftRotate h rt z) (\<lambda>(h, rt). ok (h, rt, z)))
              else ok (h, rt, z)) (\<lambda>(h, rt, z).
         bnd (bnd (fld parent h z) (\<lambda>zp. set_color h zp False)) (\<lambda>h.
         bnd (bnd (bnd (fld parent h z) (fld parent h)) (\<lambda>zpp. set_color h zpp True)) (\<lambda>h.
         bnd (bnd (bnd (fld parent h z) (fld parent h)) (rightRotate h rt)) (\<lambda>(h, rt).
         ok (h, rt, z))))))))
     else
       bnd (bnd (fld parent h zp) (fld left h)) (\<lambda>y.
       bnd (if y \<noteq> None then fld color h y else ok False) (\<lambda>yred.
       if yred then
         bnd (bnd (fld parent h z) (\<lambda>zp. set_color h zp False)) (\<lambda>h.
         bnd (set_color h y False) (\<lambda>h.
         bnd (bnd (bnd (fld parent h z) (fld parent h)) (\<lambda>zpp. set_color h zpp True)) (\<lambda>h.
         bnd (bnd (fld parent h z) (fld parent h)) (\<lambda>zpp.
         ok (h, rt, zpp)))))
       else
         bnd (bnd (fld parent h z) (fld left h)) (\<lambda>zpl.
         bnd (if z = zpl
              then bnd (fld parent h z) (\<lambda>z. bnd (rightRotate h rt z) (\<lambda>(h, rt). ok (h, rt, z)))
              else ok (h, rt, z)) (\<lambda>(h, rt, z).
         bnd (bnd (fld parent h z) (\<lambda>zp. set_color h zp False)) (\<lambda>h.
         bnd (bnd (bnd (fld parent h z) (fld parent h)) (\<lambda>zpp. set_color h zpp True)) (\<lambda>h.
         bnd (bnd (bnd (fld parent h z) (fld parent h)) (leftRotate h rt)) (\<lambda>(h, rt).
         ok (h, rt, z))))))))))"

text \<open>\<^verbatim>\<open>while (z != root && z->parent->color) { body }  root->color = false;\<close>\<close>

partial_function (option) fixInsert :: "('k, 'v) heap \<Rightarrow> addr option \<Rightarrow> addr option \<Rightarrow> (('k, 'v) heap \<times> addr option, 's) result option" where
  "fixInsert h rt z =
     bnd (if z \<noteq> rt then bnd (fld parent h z) (fld color h) else ok False) (\<lambda>go.
     if go then bnd (fixInsert_body h rt z) (\<lambda>(h, rt, z). fixInsert h rt z)
     else bnd (set_color h rt False) (\<lambda>h. ok (h, rt)))"

subsection \<open>Transplant and delete fix-up\<close>

definition transplant :: "('k, 'v) heap \<Rightarrow> addr option \<Rightarrow> addr option \<Rightarrow> addr option \<Rightarrow> (('k, 'v) heap \<times> addr option, 's) result option" where
  "transplant h rt u v =
     bnd (fld parent h u) (\<lambda>up.
     bnd (if up = None then ok (h, v)
          else bnd (fld left h up) (\<lambda>upl.
               if u = upl then bnd (set_left h up v) (\<lambda>h. ok (h, rt))
               else bnd (set_right h up v) (\<lambda>h. ok (h, rt)))) (\<lambda>(h, rt).
     if v \<noteq> None then bnd (fld parent h u) (\<lambda>up. bnd (set_parent h v up) (\<lambda>h. ok (h, rt)))
     else ok (h, rt)))"

text \<open>The test \<^verbatim>\<open>p == nullptr || !p->color\<close>, which \<^verbatim>\<open>fixDelete\<close> writes out six times.\<close>

definition nullOrBlack :: "('k, 'v) heap \<Rightarrow> addr option \<Rightarrow> (bool, 's) result option" where
  "nullOrBlack h p = (if p = None then ok True else bnd (fld color h p) (\<lambda>c. ok (\<not> c)))"

text \<open>The body of the \<^verbatim>\<open>while\<close> loop of \<^verbatim>\<open>fixDelete\<close>. Its first statement reads
  \<^verbatim>\<open>x->parent\<close>, also when \<open>x\<close> is \<^verbatim>\<open>nullptr\<close>.\<close>

definition fixDelete_body :: "('k, 'v) heap \<Rightarrow> addr option \<Rightarrow> addr option \<Rightarrow> (('k, 'v) heap \<times> addr option \<times> addr option, 's) result option" where
  "fixDelete_body h rt x =
     bnd (bnd (fld parent h x) (fld left h)) (\<lambda>xpl.
     if x = xpl then
       bnd (bnd (fld parent h x) (fld right h)) (\<lambda>w.
       bnd (fld color h w) (\<lambda>wred.
       bnd (if wred then
              bnd (set_color h w False) (\<lambda>h.
              bnd (bnd (fld parent h x) (\<lambda>xp. set_color h xp True)) (\<lambda>h.
              bnd (bnd (fld parent h x) (leftRotate h rt)) (\<lambda>(h, rt).
              bnd (bnd (fld parent h x) (fld right h)) (\<lambda>w.
              ok (h, rt, w)))))
            else ok (h, rt, w)) (\<lambda>(h, rt, w).
       bnd (bnd (bnd (fld left h w) (nullOrBlack h)) (\<lambda>lb.
            if lb then bnd (fld right h w) (nullOrBlack h) else ok False)) (\<lambda>both.
       if both then
         bnd (set_color h w True) (\<lambda>h.
         bnd (fld parent h x) (\<lambda>xp.
         ok (h, rt, xp)))
       else
         bnd (bnd (fld right h w) (nullOrBlack h)) (\<lambda>rb.
         bnd (if rb then
                bnd (fld left h w) (\<lambda>wl.
                bnd (if wl \<noteq> None then set_color h wl False else ok h) (\<lambda>h.
                bnd (set_color h w True) (\<lambda>h.
                bnd (rightRotate h rt w) (\<lambda>(h, rt).
                bnd (bnd (fld parent h x) (fld right h)) (\<lambda>w.
                ok (h, rt, w))))))
              else ok (h, rt, w)) (\<lambda>(h, rt, w).
         bnd (bnd (bnd (fld parent h x) (fld color h)) (set_color h w)) (\<lambda>h.
         bnd (bnd (fld parent h x) (\<lambda>xp. set_color h xp False)) (\<lambda>h.
         bnd (fld right h w) (\<lambda>wr.
         bnd (if wr \<noteq> None then set_color h wr False else ok h) (\<lambda>h.
         bnd (bnd (fld parent h x) (leftRotate h rt)) (\<lambda>(h, rt).
         ok (h, rt, rt))))))))))))
     else
       bnd (bnd (fld parent h x) (fld left h)) (\<lambda>w.
       bnd (fld color h w) (\<lambda>wred.
       bnd (if wred then
              bnd (set_color h w False) (\<lambda>h.
              bnd (bnd (fld parent h x) (\<lambda>xp. set_color h xp True)) (\<lambda>h.
              bnd (bnd (fld parent h x) (rightRotate h rt)) (\<lambda>(h, rt).
              bnd (bnd (fld parent h x) (fld left h)) (\<lambda>w.
              ok (h, rt, w)))))
            else ok (h, rt, w)) (\<lambda>(h, rt, w).
       bnd (bnd (bnd (fld right h w) (nullOrBlack h)) (\<lambda>rb.
            if rb then bnd (fld left h w) (nullOrBlack h) else ok False)) (\<lambda>both.
       if both then
         bnd (set_color h w True) (\<lambda>h.
         bnd (fld parent h x) (\<lambda>xp.
         ok (h, rt, xp)))
       else
         bnd (bnd (fld left h w) (nullOrBlack h)) (\<lambda>lb.
         bnd (if lb then
                bnd (fld right h w) (\<lambda>wr.
                bnd (if wr \<noteq> None then set_color h wr False else ok h) (\<lambda>h.
                bnd (set_color h w True) (\<lambda>h.
                bnd (leftRotate h rt w) (\<lambda>(h, rt).
                bnd (bnd (fld parent h x) (fld left h)) (\<lambda>w.
                ok (h, rt, w))))))
              else ok (h, rt, w)) (\<lambda>(h, rt, w).
         bnd (bnd (bnd (fld parent h x) (fld color h)) (set_color h w)) (\<lambda>h.
         bnd (bnd (fld parent h x) (\<lambda>xp. set_color h xp False)) (\<lambda>h.
         bnd (fld left h w) (\<lambda>wl.
         bnd (if wl \<noteq> None then set_color h wl False else ok h) (\<lambda>h.
         bnd (bnd (fld parent h x) (rightRotate h rt)) (\<lambda>(h, rt).
         ok (h, rt, rt)))))))))))))"

text \<open>\<^verbatim>\<open>while (x != root && (x == nullptr || !x->color)) { body }
  if (x != nullptr) x->color = false;\<close>\<close>

partial_function (option) fixDelete :: "('k, 'v) heap \<Rightarrow> addr option \<Rightarrow> addr option \<Rightarrow> (('k, 'v) heap \<times> addr option, 's) result option" where
  "fixDelete h rt x =
     bnd (if x \<noteq> rt then nullOrBlack h x else ok False) (\<lambda>go.
     if go then bnd (fixDelete_body h rt x) (\<lambda>(h, rt, x). fixDelete h rt x)
     else if x \<noteq> None then bnd (set_color h x False) (\<lambda>h. ok (h, rt))
     else ok (h, rt))"

subsection \<open>Search, extrema, destruction and cloning\<close>

text \<open>The loop of \<^verbatim>\<open>findNode\<close>, started at \<open>current\<close>.\<close>

partial_function (option) findNode_from :: "('k \<Rightarrow> 'k \<Rightarrow> bool) \<Rightarrow> ('k, 'v) heap \<Rightarrow> 'k \<Rightarrow> addr option \<Rightarrow> (addr option, 's) result option" where
  "findNode_from cmp h k current =
     (if current \<noteq> None then
        bnd (fld data_first h current) (\<lambda>ck.
        if cmp k ck then bnd (fld left h current) (findNode_from cmp h k)
        else if cmp ck k then bnd (fld right h current) (findNode_from cmp h k)
        else ok current)
      else ok None)"

definition findNode :: "('k \<Rightarrow> 'k \<Rightarrow> bool) \<Rightarrow> ('k, 'v) heap \<Rightarrow> addr option \<Rightarrow> 'k \<Rightarrow> (addr option, 's) result option" where
  "findNode cmp h rt k = findNode_from cmp h k rt"

partial_function (option) minimum :: "('k, 'v) heap \<Rightarrow> addr option \<Rightarrow> (addr option, 's) result option" where
  "minimum h nd =
     bnd (if nd \<noteq> None then bnd (fld left h nd) (\<lambda>l. ok (l \<noteq> None)) else ok False) (\<lambda>go.
     if go then bnd (fld left h nd) (minimum h) else ok nd)"

partial_function (option) maximum :: "('k, 'v) heap \<Rightarrow> addr option \<Rightarrow> (addr option, 's) result option" where
  "maximum h nd =
     bnd (if nd \<noteq> None then bnd (fld right h nd) (\<lambda>r. ok (r \<noteq> None)) else ok False) (\<lambda>go.
     if go then bnd (fld right h nd) (maximum h) else ok nd)"

partial_function (option) clearTree :: "('k, 'v) heap \<Rightarrow> addr option \<Rightarrow> (('k, 'v) heap, 's) result option" where
  "clearTree h nd =
     (if nd = None then ok h
      else
        bnd (fld left h nd) (\<lambda>l.
        bnd (clearTree h l) (\<lambda>h.
        bnd (fld right h nd) (\<lambda>r.
        bnd (clearTree h r) (\<lambda>h.
        delete h nd)))))"

text \<open>\<^verbatim>\<open>copyTree\<close> allocates, so it also takes and returns the allocator's next address.\<close>

partial_function (option) copyTree :: "('k, 'v) heap \<Rightarrow> addr \<Rightarrow> addr option \<Rightarrow> addr option \<Rightarrow> (('k, 'v) heap \<times> addr \<times> addr option, 's) result option" where
  "copyTree h nx nd par =
     (if nd = None then ok (h, nx, None)
      else
        bnd (fld (\<lambda>n. (data_first n, data_second n)) h nd) (\<lambda>d.
        case new_Node h nx d par of (h, nx, newNode) \<Rightarrow>
        bnd (bnd (fld color h nd) (set_color h newNode)) (\<lambda>h.
        bnd (bnd (fld left h nd) (\<lambda>l. copyTree h nx l newNode)) (\<lambda>(h, nx, l').
        bnd (set_left h newNode l') (\<lambda>h.
        bnd (bnd (fld right h nd) (\<lambda>r. copyTree h nx r newNode)) (\<lambda>(h, nx, r').
        bnd (set_right h newNode r') (\<lambda>h.
        ok (h, nx, newNode))))))))"

subsection \<open>The world: the free store and the map objects\<close>

text \<open>A \<^verbatim>\<open>map\<close> object holds \<^verbatim>\<open>root\<close> and \<^verbatim>\<open>tree_size\<close>; \<open>maps w c\<close> is the object
  at address \<open>c\<close>, if one lives there. \<open>fresh\<close> is the next address of the allocator.\<close>

record map_obj =
  root :: "addr option"
  tree_size :: nat

record ('k, 'v) world =
  nodes :: "('k, 'v) heap"
  maps :: "mid \<Rightarrow> map_obj option"
  fresh :: addr

text \<open>A read of a member through a \<^verbatim>\<open>map\<close> pointer.\<close>

definition obj :: "('k, 'v) world \<Rightarrow> mid option \<Rightarrow> (map_obj, 's) result option" where
  "obj w c = (case c of None \<Rightarrow> fault
              | Some i \<Rightarrow> (case maps w i of None \<Rightarrow> fault | Some m \<Rightarrow> ok m))"

subsection \<open>Iterators\<close>

text \<open>\<^verbatim>\<open>class iterator\<close> and \<^verbatim>\<open>class const_iterator\<close> have the same two members and, line
  by line, the same operators; one model serves both. An operator that changes the
  iterator returns the changed iterator; the world is only read.\<close>

record iterator =
  node :: "addr option"
  container :: "mid option"

definition iterator_default :: iterator where
  "iterator_default = \<lparr>node = None, container = None\<rparr>"

text \<open>The inner loops of \<^verbatim>\<open>operator++\<close> and \<^verbatim>\<open>operator--\<close>:
  \<^verbatim>\<open>while (node->left != nullptr) node = node->left;\<close> and
  \<^verbatim>\<open>while (parent != nullptr && node == parent->right) { node = parent; parent = parent->parent; }\<close>
  with their mirror images.\<close>

partial_function (option) descend_left :: "('k, 'v) heap \<Rightarrow> addr option \<Rightarrow> (addr option, 's) result option" where
  "descend_left h nd =
     bnd (fld left h nd) (\<lambda>l. if l \<noteq> None then descend_left h l else ok nd)"

partial_function (option) descend_right :: "('k, 'v) heap \<Rightarrow> addr option \<Rightarrow> (addr option, 's) result option" where
  "descend_right h nd =
     bnd (fld right h nd) (\<lambda>r. if r \<noteq> None then descend_right h r else ok nd)"

partial_function (option) ascend_right :: "('k, 'v) heap \<Rightarrow> addr option \<Rightarrow> addr option \<Rightarrow> (addr option \<times> addr option, 's) result option" where
  "ascend_right h nd par =
     bnd (if par \<noteq> None then bnd (fld right h par) (\<lambda>r. ok (nd = r)) else ok False) (\<lambda>go.
     if go then bnd (fld parent h par) (ascend_right h par) else ok (nd, par))"

partial_function (option) ascend_left :: "('k, 'v) heap \<Rightarrow> addr option \<Rightarrow> addr option \<Rightarrow> (addr option \<times> addr option, 's) result option" where
  "ascend_left h nd par =
     bnd (if par \<noteq> None then bnd (fld left h par) (\<lambda>l. ok (nd = l)) else ok False) (\<lambda>go.
     if go then bnd (fld parent h par) (ascend_left h par) else ok (nd, par))"

text \<open>\<^verbatim>\<open>operator++()\<close>\<close>

definition iterator_inc :: "('k, 'v) world \<Rightarrow> iterator \<Rightarrow> (iterator, iterator) result option" where
  "iterator_inc w it =
     (if node it = None then Some (Raise invalid_iterator it)
      else
        bnd (fld right (nodes w) (node it)) (\<lambda>r.
        if r \<noteq> None then
          bnd (descend_left (nodes w) r) (\<lambda>n. ok (it\<lparr>node := n\<rparr>))
        else
          bnd (fld parent (nodes w) (node it)) (\<lambda>par.
          bnd (ascend_right (nodes w) (node it) par) (\<lambda>(n, par).
          ok (it\<lparr>node := par\<rparr>)))))"

text \<open>\<^verbatim>\<open>operator++(int)\<close>: the value returned is the old iterator; the second component is
  \<^verbatim>\<open>*this\<close> afterwards.\<close>

definition iterator_post_inc :: "('k, 'v) world \<Rightarrow> iterator \<Rightarrow> (iterator \<times> iterator, iterator) result option" where
  "iterator_post_inc w it = bnd (iterator_inc w it) (\<lambda>it'. ok (it, it'))"

text \<open>\<^verbatim>\<open>operator--()\<close>\<close>

definition iterator_dec :: "('k, 'v) world \<Rightarrow> iterator \<Rightarrow> (iterator, iterator) result option" where
  "iterator_dec w it =
     bnd (if node it = None then
            (if container it = None then Some (Raise invalid_iterator it)
             else
               bnd (obj w (container it)) (\<lambda>m.
               if root m = None then Some (Raise invalid_iterator it)
               else bnd (maximum (nodes w) (root m)) (\<lambda>n. ok (it\<lparr>node := n\<rparr>))))
          else
            bnd (fld left (nodes w) (node it)) (\<lambda>l.
            if l \<noteq> None then
              bnd (descend_right (nodes w) l) (\<lambda>n. ok (it\<lparr>node := n\<rparr>))
            else
              bnd (fld parent (nodes w) (node it)) (\<lambda>par.
              bnd (ascend_left (nodes w) (node it) par) (\<lambda>(n, par).
              ok (it\<lparr>node := par\<rparr>))))) (\<lambda>it.
     if node it = None then Some (Raise invalid_iterator it) else ok it)"

definition iterator_post_dec :: "('k, 'v) world \<Rightarrow> iterator \<Rightarrow> (iterator \<times> iterator, iterator) result option" where
  "iterator_post_dec w it = bnd (iterator_dec w it) (\<lambda>it'. ok (it, it'))"

text \<open>\<^verbatim>\<open>operator*\<close> and \<^verbatim>\<open>operator->\<close> give access to \<^verbatim>\<open>node->data\<close>; the model returns the
  pair stored there.\<close>

definition iterator_deref :: "('k, 'v) world \<Rightarrow> iterator \<Rightarrow> ('k \<times> 'v, iterator) result option" where
  "iterator_deref w it =
     (if node it = None then Some (Raise invalid_iterator it)
      else fld (\<lambda>n. (data_first n, data_second n)) (nodes w) (node it))"

definition iterator_arrow :: "('k, 'v) world \<Rightarrow> iterator \<Rightarrow> ('k \<times> 'v, iterator) result option" where
  "iterator_arrow w it =
     (if node it = None then Some (Raise invalid_iterator it)
      else fld (\<lambda>n. (data_first n, data_second n)) (nodes w) (node it))"

text \<open>\<^verbatim>\<open>operator==\<close> and \<^verbatim>\<open>operator!=\<close>\<close>

definition iterator_eq :: "iterator \<Rightarrow> iterator \<Rightarrow> bool" where
  "iterator_eq a b \<longleftrightarrow> node a = node b \<and> container a = container b"

definition iterator_neq :: "iterator \<Rightarrow> iterator \<Rightarrow> bool" where
  "iterator_neq a b \<longleftrightarrow> \<not> iterator_eq a b"

subsection \<open>The public operations of \<^verbatim>\<open>map\<close>\<close>

text \<open>Each takes the world and \<^verbatim>\<open>this\<close>. A method that changes the world returns the
  new world, and a thrown exception carries the world it leaves behind.\<close>

definition map_ctor :: "('k, 'v) world \<Rightarrow> mid \<Rightarrow> ('k, 'v) world" where
  "map_ctor w this = w\<lparr>maps := (maps w)(this \<mapsto> \<lparr>root = None, tree_size = 0\<rparr>)\<rparr>"

definition map_copy_ctor :: "('k, 'v) world \<Rightarrow> mid \<Rightarrow> mid \<Rightarrow> (('k, 'v) world, ('k, 'v) world) result option" where
  "map_copy_ctor w this other =
     bnd (obj w (Some other)) (\<lambda>om.
     bnd (copyTree (nodes w) (fresh w) (root om) None) (\<lambda>(h, nx, r).
     ok (w\<lparr>nodes := h, fresh := nx,
            maps := (maps w)(this \<mapsto> \<lparr>root = r, tree_size = tree_size om\<rparr>)\<rparr>)))"

definition map_assign :: "('k, 'v) world \<Rightarrow> mid \<Rightarrow> mid \<Rightarrow> (('k, 'v) world, ('k, 'v) world) result option" where
  "map_assign w this other =
     (if this \<noteq> other then
        bnd (obj w (Some this)) (\<lambda>m.
        bnd (clearTree (nodes w) (root m)) (\<lambda>h.
        bnd (obj w (Some other)) (\<lambda>om.
        bnd (copyTree h (fresh w) (root om) None) (\<lambda>(h, nx, r).
        ok (w\<lparr>nodes := h, fresh := nx,
               maps := (maps w)(this \<mapsto> \<lparr>root = r, tree_size = tree_size om\<rparr>)\<rparr>)))))
      else ok w)"

definition map_dtor :: "('k, 'v) world \<Rightarrow> mid \<Rightarrow> (('k, 'v) world, ('k, 'v) world) result option" where
  "map_dtor w this =
     bnd (obj w (Some this)) (\<lambda>m.
     bnd (clearTree (nodes w) (root m)) (\<lambda>h.
     ok (w\<lparr>nodes := h, maps := (maps w)(this := None)\<rparr>)))"

definition map_at :: "('k \<Rightarrow> 'k \<Rightarrow> bool) \<Rightarrow> ('k, 'v) world \<Rightarrow> mid \<Rightarrow> 'k \<Rightarrow> ('v, ('k, 'v) world) result option" where
  "map_at cmp w this k =
     bnd (obj w (Some this)) (\<lambda>m.
     bnd (findNode cmp (nodes w) (root m) k) (\<lambda>n.
     if n = None then Some (Raise index_out_of_bound w)
     else fld data_second (nodes w) n))"

definition map_begin :: "('k, 'v) world \<Rightarrow> mid \<Rightarrow> (iterator, 's) result option" where
  "map_begin w this =
     bnd (obj w (Some this)) (\<lambda>m.
     bnd (minimum (nodes w) (root m)) (\<lambda>n.
     ok \<lparr>node = n, container = Some this\<rparr>))"

definition map_cbegin :: "('k, 'v) world \<Rightarrow> mid \<Rightarrow> (iterator, 's) result option" where
  "map_cbegin w this =
     bnd (obj w (Some this)) (\<lambda>m.
     bnd (minimum (nodes w) (root m)) (\<lambda>n.
     ok \<lparr>node = n, container = Some this\<rparr>))"

definition map_end :: "mid \<Rightarrow> iterator" where
  "map_end this = \<lparr>node = None, container = Some this\<rparr>"

definition map_cend :: "mid \<Rightarrow> iterator" where
  "map_cend this = \<lparr>node = None, container = Some this\<rparr>"

definition map_empty :: "('k, 'v) world \<Rightarrow> mid \<Rightarrow> (bool, 's) result option" where
  "map_empty w this = bnd (obj w (Some this)) (\<lambda>m. ok (tree_size m = 0))"

definition map_size :: "('k, 'v) world \<Rightarrow> mid \<Rightarrow> (nat, 's) result option" where
  "map_size w this = bnd (obj w (Some this)) (\<lambda>m. ok (tree_size m))"

definition map_clear :: "('k, 'v) world \<Rightarrow> mid \<Rightarrow> (('k, 'v) world, ('k, 'v) world) result option" where
  "map_clear w this =
     bnd (obj w (Some this)) (\<lambda>m.
     bnd (clearTree (nodes w) (root m)) (\<lambda>h.
     ok (w\<lparr>nodes := h, maps := (maps w)(this \<mapsto> \<lparr>root = None, tree_size = 0\<rparr>)\<rparr>)))"

text \<open>The search loop of \<^verbatim>\<open>insert\<close>. It ends with \<open>current = None\<close> when the key is
  new, and by the \<^verbatim>\<open>return\<close> inside the loop, with \<open>current\<close> at the node found, when
  an equivalent key is present. It returns \<open>(parent, current)\<close>.\<close>

partial_function (option) insert_search :: "('k \<Rightarrow> 'k \<Rightarrow> bool) \<Rightarrow> ('k, 'v) heap \<Rightarrow> 'k \<Rightarrow> addr option \<Rightarrow> addr option \<Rightarrow> (addr option \<times> addr option, 's) result option" where
  "insert_search cmp h k par current =
     (if current \<noteq> None then
        bnd (fld data_first h current) (\<lambda>ck.
        if cmp k ck then bnd (fld left h current) (insert_search cmp h k current)
        else if cmp ck k then bnd (fld right h current) (insert_search cmp h k current)
        else ok (current, current))
      else ok (par, current))"

definition map_insert :: "('k \<Rightarrow> 'k \<Rightarrow> bool) \<Rightarrow> ('k, 'v) world \<Rightarrow> mid \<Rightarrow> 'k \<times> 'v \<Rightarrow> (('k, 'v) world \<times> iterator \<times> bool, ('k, 'v) world) result option" where
  "map_insert cmp w this val =
     bnd (obj w (Some this)) (\<lambda>m.
     bnd (insert_search cmp (nodes w) (fst val) None (root m)) (\<lambda>(par, current).
     if current \<noteq> None then ok (w, \<lparr>node = current, container = Some this\<rparr>, False)
     else
       case new_Node (nodes w) (fresh w) val par of (h, nx, newNode) \<Rightarrow>
       bnd (if par = None then ok (h, newNode)
            else bnd (fld data_first h par) (\<lambda>pk.
                 if cmp (fst val) pk then bnd (set_left h par newNode) (\<lambda>h. ok (h, root m))
                 else bnd (set_right h par newNode) (\<lambda>h. ok (h, root m)))) (\<lambda>(h, rt).
       bnd (fixInsert h rt newNode) (\<lambda>(h, rt).
       ok (w\<lparr>nodes := h, fresh := nx,
              maps := (maps w)(this \<mapsto> \<lparr>root = rt, tree_size = tree_size m + 1\<rparr>)\<rparr>,
           \<lparr>node = newNode, container = Some this\<rparr>, True)))))"

text \<open>\<^verbatim>\<open>operator[]\<close>, non-const: \<^verbatim>\<open>T()\<close> is the parameter \<open>dflt\<close>.\<close>

definition map_subscript :: "('k \<Rightarrow> 'k \<Rightarrow> bool) \<Rightarrow> 'v \<Rightarrow> ('k, 'v) world \<Rightarrow> mid \<Rightarrow> 'k \<Rightarrow> (('k, 'v) world \<times> 'v, ('k, 'v) world) result option" where
  "map_subscript cmp dflt w this k =
     bnd (obj w (Some this)) (\<lambda>m.
     bnd (findNode cmp (nodes w) (root m) k) (\<lambda>n.
     if n \<noteq> None then bnd (fld data_second (nodes w) n) (\<lambda>v. ok (w, v))
     else
       bnd (map_insert cmp w this (k, dflt)) (\<lambda>(w, it, b).
       bnd (fld data_second (nodes w) (node it)) (\<lambda>v. ok (w, v)))))"

text \<open>\<^verbatim>\<open>operator[]\<close>, const\<close>

definition map_subscript_const :: "('k \<Rightarrow> 'k \<Rightarrow> bool) \<Rightarrow> ('k, 'v) world \<Rightarrow> mid \<Rightarrow> 'k \<Rightarrow> ('v, ('k, 'v) world) result option" where
  "map_subscript_const cmp w this k = map_at cmp w this k"

definition map_erase :: "('k, 'v) world \<Rightarrow> mid \<Rightarrow> iterator \<Rightarrow> (('k, 'v) world, ('k, 'v) world) result option" where
  "map_erase w this pos =
     (if container pos \<noteq> Some this \<or> node pos = None then Some (Raise invalid_iterator w)
      else
        bnd (obj w (Some this)) (\<lambda>m.
        case (nodes w, root m, node pos) of (h, rt, z) \<Rightarrow>
        bnd (fld color h z) (\<lambda>y_original_color.
        bnd (bnd (fld left h z) (\<lambda>zl.
             if zl = None then
               bnd (fld right h z) (\<lambda>x.
               bnd (bnd (fld right h z) (transplant h rt z)) (\<lambda>(h, rt).
               ok (h, rt, x, y_original_color)))
             else
               bnd (fld right h z) (\<lambda>zr.
               if zr = None then
                 bnd (fld left h z) (\<lambda>x.
                 bnd (bnd (fld left h z) (transplant h rt z)) (\<lambda>(h, rt).
                 ok (h, rt, x, y_original_color)))
               else
                 bnd (bnd (fld right h z) (minimum h)) (\<lambda>y.
                 bnd (fld color h y) (\<lambda>y_original_color.
                 bnd (fld right h y) (\<lambda>x.
                 bnd (bnd (fld parent h y) (\<lambda>yp.
                      if yp = z then
                        bnd (if x \<noteq> None then set_parent h x y else ok h) (\<lambda>h. ok (h, rt))
                      else
                        bnd (bnd (fld right h y) (transplant h rt y)) (\<lambda>(h, rt).
                        bnd (bnd (fld right h z) (set_right h y)) (\<lambda>h.
                        bnd (bnd (fld right h y) (\<lambda>yr. set_parent h yr y)) (\<lambda>h.
                        ok (h, rt)))))) (\<lambda>(h, rt).
                 bnd (transplant h rt z y) (\<lambda>(h, rt).
                 bnd (bnd (fld left h z) (set_left h y)) (\<lambda>h.
                 bnd (bnd (fld left h y) (\<lambda>yl. set_parent h yl y)) (\<lambda>h.
                 bnd (bnd (fld color h z) (set_color h y)) (\<lambda>h.
                 ok (h, rt, x, y_original_color)))))))))))) (\<lambda>(h, rt, x, y_original_color).
        bnd (if \<not> y_original_color then fixDelete h rt x else ok (h, rt)) (\<lambda>(h, rt).
        bnd (delete h z) (\<lambda>h.
        ok (w\<lparr>nodes := h,
               maps := (maps w)(this \<mapsto> \<lparr>root = rt, tree_size = tree_size m - 1\<rparr>)\<rparr>)))))))"

definition map_count :: "('k \<Rightarrow> 'k \<Rightarrow> bool) \<Rightarrow> ('k, 'v) world \<Rightarrow> mid \<Rightarrow> 'k \<Rightarrow> (nat, 's) result option" where
  "map_count cmp w this k =
     bnd (obj w (Some this)) (\<lambda>m.
     bnd (findNode cmp (nodes w) (root m) k) (\<lambda>n.
     ok (if n \<noteq> None then 1 else 0)))"

definition map_find :: "('k \<Rightarrow> 'k \<Rightarrow> bool) \<Rightarrow> ('k, 'v) world \<Rightarrow> mid \<Rightarrow> 'k \<Rightarrow> (iterator, 's) result option" where
  "map_find cmp w this k =
     bnd (obj w (Some this)) (\<lambda>m.
     bnd (findNode cmp (nodes w) (root m) k) (\<lambda>n.
     ok \<lparr>node = n, container = Some this\<rparr>))"

subsection \<open>Client code used to state the properties\<close>

text \<open>Inserting a list of entries one after the other, and the loop
  \<^verbatim>\<open>for (it = first; it != fin; ++it) out.push_back(*it);\<close> that a client writes to
  traverse a map.\<close>

fun insert_all :: "('k \<Rightarrow> 'k \<Rightarrow> bool) \<Rightarrow> ('k, 'v) world \<Rightarrow> mid \<Rightarrow> ('k \<times> 'v) list \<Rightarrow> (('k, 'v) world, ('k, 'v) world) result option" where
  "insert_all cmp w this [] = ok w"
| "insert_all cmp w this (kv # kvs) =
     bnd (map_insert cmp w this kv) (\<lambda>(w, it, b). insert_all cmp w this kvs)"

partial_function (option) traverse :: "('k, 'v) world \<Rightarrow> iterator \<Rightarrow> iterator \<Rightarrow> (('k \<times> 'v) list, iterator) result option" where
  "traverse w it fin =
     (if iterator_neq it fin then
        bnd (iterator_deref w it) (\<lambda>kv.
        bnd (iterator_inc w it) (\<lambda>it.
        bnd (traverse w it fin) (\<lambda>kvs.
        ok (kv # kvs))))
      else ok [])"

definition contents :: "('k, 'v) world \<Rightarrow> mid \<Rightarrow> (('k \<times> 'v) list, iterator) result option" where
  "contents w this = bnd (map_begin w this) (\<lambda>b. traverse w b (map_end this))"

text \<open>The world before any map is constructed.\<close>

definition world_init :: "('k, 'v) world" where
  "world_init = \<lparr>nodes = Map.empty, maps = Map.empty, fresh = 0\<rparr>"

text \<open>Unfolding rules that run the model on concrete inputs.\<close>

lemmas run_prims = bnd_def fld_def upd_def set_left_def set_right_def set_parent_def
  set_color_def new_Node_def delete_def obj_def nullOrBlack_def

lemmas run_tree = leftRotate_def rightRotate_def fixInsert_body_def fixInsert.simps
  transplant_def fixDelete_body_def fixDelete.simps findNode_from.simps findNode_def
  minimum.simps maximum.simps clearTree.simps copyTree.simps

lemmas run_iter = descend_left.simps descend_right.simps ascend_left.simps
  ascend_right.simps iterator_inc_def iterator_post_inc_def iterator_dec_def
  iterator_post_dec_def iterator_deref_def iterator_arrow_def iterator_eq_def
  iterator_neq_def iterator_default_def

lemmas run_map = map_ctor_def map_copy_ctor_def map_assign_def map_dtor_def map_at_def
  map_begin_def map_cbegin_def map_end_def map_cend_def map_empty_def map_size_def
  map_clear_def insert_search.simps map_insert_def map_subscript_def
  map_subscript_const_def map_erase_def map_count_def map_find_def traverse.simps
  contents_def world_init_def

section \<open>The tree a store holds\<close>

text \<open>The proofs relate the store to a functional tree that records, for every node, its
  address, key, value and colour. \<open>heap_tree h par t\<close> says that the store \<open>h\<close> holds
  the tree \<open>t\<close> below the parent pointer \<open>par\<close>: every node of \<open>t\<close> is allocated at its
  address with exactly the fields \<open>t\<close> prescribes, parent pointer included.\<close>

datatype ('k, 'v) shape = Tip | Bin "('k, 'v) shape" addr 'k 'v bool "('k, 'v) shape"

fun ptr :: "('k, 'v) shape \<Rightarrow> addr option" where
  "ptr Tip = None"
| "ptr (Bin l a k v c r) = Some a"

fun addrs :: "('k, 'v) shape \<Rightarrow> addr list" where
  "addrs Tip = []"
| "addrs (Bin l a k v c r) = addrs l @ a # addrs r"

fun entries :: "('k, 'v) shape \<Rightarrow> ('k \<times> 'v) list" where
  "entries Tip = []"
| "entries (Bin l a k v c r) = entries l @ (k, v) # entries r"

fun heap_tree :: "('k, 'v) heap \<Rightarrow> addr option \<Rightarrow> ('k, 'v) shape \<Rightarrow> bool" where
  "heap_tree h par Tip \<longleftrightarrow> True"
| "heap_tree h par (Bin l a k v c r) \<longleftrightarrow>
     h a = Some \<lparr>data_first = k, data_second = v, left = ptr l, right = ptr r,
                 parent = par, color = c\<rparr>
     \<and> heap_tree h (Some a) l \<and> heap_tree h (Some a) r"

definition succ_ptr :: "('k, 'v) heap \<Rightarrow> addr option \<Rightarrow> (addr option, 's) result option" where
  "succ_ptr h n =
     bnd (fld right h n) (\<lambda>r.
     if r \<noteq> None then descend_left h r
     else bnd (fld parent h n) (\<lambda>par. bnd (ascend_right h n par) (\<lambda>(n, par). ok par)))"

definition pred_ptr :: "('k, 'v) heap \<Rightarrow> addr option \<Rightarrow> (addr option, 's) result option" where
  "pred_ptr h n =
     bnd (fld left h n) (\<lambda>l.
     if l \<noteq> None then descend_right h l
     else bnd (fld parent h n) (\<lambda>par. bnd (ascend_left h n par) (\<lambda>(n, par). ok par)))"

definition map_shape :: "('k, 'v) world \<Rightarrow> mid \<Rightarrow> ('k, 'v) shape \<Rightarrow> bool" where
  "map_shape w this t \<longleftrightarrow>
     maps w this = Some \<lparr>root = ptr t, tree_size = length (addrs t)\<rparr>
     \<and> heap_tree (nodes w) None t \<and> distinct (addrs t)"

text \<open>Keys are compared with the comparator only. Two keys are equivalent when neither
  is less than the other; the specification asks the comparator to be a strict weak
  order. \<open>bst\<close> is invariant 1 of the data model.\<close>

definition equiv_keys :: "('k \<Rightarrow> 'k \<Rightarrow> bool) \<Rightarrow> 'k \<Rightarrow> 'k \<Rightarrow> bool" where
  "equiv_keys cmp a b \<longleftrightarrow> \<not> cmp a b \<and> \<not> cmp b a"

definition strict_weak_order :: "('k \<Rightarrow> 'k \<Rightarrow> bool) \<Rightarrow> bool" where
  "strict_weak_order cmp \<longleftrightarrow>
     (\<forall>a. \<not> cmp a a)
     \<and> (\<forall>a b c. cmp a b \<longrightarrow> cmp b c \<longrightarrow> cmp a c)
     \<and> (\<forall>a b c. equiv_keys cmp a b \<longrightarrow> equiv_keys cmp b c \<longrightarrow> equiv_keys cmp a c)"

fun bst :: "('k \<Rightarrow> 'k \<Rightarrow> bool) \<Rightarrow> ('k, 'v) shape \<Rightarrow> bool" where
  "bst cmp Tip \<longleftrightarrow> True"
| "bst cmp (Bin l a k v c r) \<longleftrightarrow>
     (\<forall>e \<in> set (entries l). cmp (fst e) k) \<and> (\<forall>e \<in> set (entries r). cmp k (fst e))
     \<and> bst cmp l \<and> bst cmp r"

text \<open>A position in a tree is the list of frames from the position up to the root; a
  frame holds a node and the subtree on its other side. \<open>heap_ctx h up fs p\<close> says that
  the store holds the frames \<open>fs\<close> around a hole whose pointer is \<open>p\<close>. \<open>locate\<close> is the
  descent that \<open>findNode\<close> and the search loop of \<open>insert\<close> make.\<close>

datatype dir = L | R

datatype ('k, 'v) frame = Frame dir addr 'k 'v bool "('k, 'v) shape"

fun wrap :: "('k, 'v) frame \<Rightarrow> ('k, 'v) shape \<Rightarrow> ('k, 'v) shape" where
  "wrap (Frame L a k v c s) t = Bin t a k v c s"
| "wrap (Frame R a k v c s) t = Bin s a k v c t"

fun plug :: "('k, 'v) frame list \<Rightarrow> ('k, 'v) shape \<Rightarrow> ('k, 'v) shape" where
  "plug [] t = t"
| "plug (f # fs) t = plug fs (wrap f t)"

fun faddr :: "('k, 'v) frame \<Rightarrow> addr" where
  "faddr (Frame d a k v c s) = a"

fun cpar :: "addr option \<Rightarrow> ('k, 'v) frame list \<Rightarrow> addr option" where
  "cpar up [] = up"
| "cpar up (f # fs) = Some (faddr f)"

fun heap_ctx :: "('k, 'v) heap \<Rightarrow> addr option \<Rightarrow> ('k, 'v) frame list \<Rightarrow> addr option \<Rightarrow> bool" where
  "heap_ctx h up [] p \<longleftrightarrow> True"
| "heap_ctx h up (Frame d a k v c s # fs) p \<longleftrightarrow>
     h a = Some \<lparr>data_first = k, data_second = v,
                 left = (if d = L then p else ptr s), right = (if d = L then ptr s else p),
                 parent = cpar up fs, color = c\<rparr>
     \<and> heap_tree h (Some a) s \<and> heap_ctx h up fs (Some a)"

fun locate :: "('k \<Rightarrow> 'k \<Rightarrow> bool) \<Rightarrow> 'k \<Rightarrow> ('k, 'v) shape \<Rightarrow> ('k, 'v) frame list \<Rightarrow> ('k, 'v) frame list \<times> ('k, 'v) shape" where
  "locate cmp k Tip fs = (fs, Tip)"
| "locate cmp k (Bin l a kb vb c r) fs =
     (if cmp k kb then locate cmp k l (Frame L a kb vb c r # fs)
      else if cmp kb k then locate cmp k r (Frame R a kb vb c l # fs)
      else (fs, Bin l a kb vb c r))"

subsection \<open>Subtrees in their context\<close>

text \<open>The addresses of a context, and a subtree \<open>t\<close> laid out in the heap below
  the context \<open>fs\<close>: the whole tree \<open>plug fs t\<close> is linked correctly and no
  address occurs twice. \<open>same_outside A h h'\<close> says that \<open>h'\<close> differs from
  \<open>h\<close> at most at the addresses in \<open>A\<close>.\<close>

fun caddrs :: "('k, 'v) frame list \<Rightarrow> addr list" where
  "caddrs [] = []"
| "caddrs (Frame d a k v c s # fs) = a # addrs s @ caddrs fs"

definition tree_at :: "('k, 'v) heap \<Rightarrow> ('k, 'v) frame list \<Rightarrow> ('k, 'v) shape \<Rightarrow> bool" where
  "tree_at h fs t \<longleftrightarrow>
     heap_ctx h None fs (ptr t) \<and> heap_tree h (cpar None fs) t \<and> distinct (addrs t @ caddrs fs)"

definition same_outside :: "addr set \<Rightarrow> ('k, 'v) heap \<Rightarrow> ('k, 'v) heap \<Rightarrow> bool" where
  "same_outside A h h' \<longleftrightarrow> (\<forall>p. p \<notin> A \<longrightarrow> h' p = h p)"

definition fnode :: "dir \<Rightarrow> 'k \<Rightarrow> 'v \<Rightarrow> addr option \<Rightarrow> addr option \<Rightarrow> addr option \<Rightarrow> bool \<Rightarrow> ('k, 'v) node" where
  "fnode d k v p q par c =
     \<lparr>data_first = k, data_second = v, left = (if d = L then p else q),
      right = (if d = L then q else p), parent = par, color = c\<rparr>"

fun fdir :: "('k, 'v) frame \<Rightarrow> dir" where
  "fdir (Frame d a k v c s) = d"

fun fkey :: "('k, 'v) frame \<Rightarrow> 'k" where
  "fkey (Frame d a k v c s) = k"

fun fcolor :: "('k, 'v) frame \<Rightarrow> bool" where
  "fcolor (Frame d a k v c s) = c"

text \<open>An address together with the entry stored there, in order.\<close>

fun assoc :: "('k, 'v) shape \<Rightarrow> (addr \<times> 'k \<times> 'v) list" where
  "assoc Tip = []"
| "assoc (Bin l a k v c r) = assoc l @ (a, k, v) # assoc r"

text \<open>The entries of a context that come before and after its hole, and the
  comparisons that lead a search for \<open>k\<close> along the context.\<close>

fun cbefore :: "('k, 'v) frame list \<Rightarrow> ('k \<times> 'v) list" where
  "cbefore [] = []"
| "cbefore (Frame L a k v c u # fs) = cbefore fs"
| "cbefore (Frame R a k v c u # fs) = cbefore fs @ entries u @ [(k, v)]"

fun cafter :: "('k, 'v) frame list \<Rightarrow> ('k \<times> 'v) list" where
  "cafter [] = []"
| "cafter (Frame L a k v c u # fs) = (k, v) # entries u @ cafter fs"
| "cafter (Frame R a k v c u # fs) = cafter fs"

definition path_ok :: "('k \<Rightarrow> 'k \<Rightarrow> bool) \<Rightarrow> 'k \<Rightarrow> ('k, 'v) frame list \<Rightarrow> bool" where
  "path_ok cmp k fs \<longleftrightarrow>
     (\<forall>f \<in> set fs. if fdir f = L then cmp k (fkey f) else \<not> cmp k (fkey f) \<and> cmp (fkey f) k)"

subsection \<open>What \<^verbatim>\<open>fixInsert\<close> computes\<close>

text \<open>The loop of \<^verbatim>\<open>fixInsert\<close> read on shapes: \<open>s\<close> is the subtree
  rooted at the red node \<^verbatim>\<open>z\<close>, the head of the context is its parent and the
  next frame its grandparent. With a red uncle both are recoloured and the loop goes on at the
  grandparent; otherwise one or two rotations (\<open>ins_rot\<close>) end it. The root is painted
  black at the exit.\<close>

fun paint :: "bool \<Rightarrow> ('k, 'v) shape \<Rightarrow> ('k, 'v) shape" where
  "paint c Tip = Tip"
| "paint c (Bin l a k v c' r) = Bin l a k v c r"

fun color_of :: "('k, 'v) shape \<Rightarrow> bool" where
  "color_of Tip = False"
| "color_of (Bin l a k v c r) = c"

fun ins_rot :: "dir \<Rightarrow> dir \<Rightarrow> addr \<Rightarrow> 'k \<Rightarrow> 'v \<Rightarrow> ('k, 'v) shape \<Rightarrow> addr \<Rightarrow> 'k \<Rightarrow> 'v \<Rightarrow> ('k, 'v) shape
    \<Rightarrow> ('k, 'v) shape \<Rightarrow> ('k, 'v) frame \<times> ('k, 'v) shape" where
  "ins_rot L L pa pk pv sib ga gk gv u s =
     (Frame L pa pk pv False (Bin sib ga gk gv True u), s)"
| "ins_rot R R pa pk pv sib ga gk gv u s =
     (Frame R pa pk pv False (Bin u ga gk gv True sib), s)"
| "ins_rot L R pa pk pv sib ga gk gv u (Bin zl za zk zv zc zr) =
     (Frame L za zk zv False (Bin zr ga gk gv True u), Bin sib pa pk pv True zl)"
| "ins_rot R L pa pk pv sib ga gk gv u (Bin zl za zk zv zc zr) =
     (Frame R za zk zv False (Bin u ga gk gv True zl), Bin zr pa pk pv True sib)"
| "ins_rot dg dp pa pk pv sib ga gk gv u Tip = (Frame dp pa pk pv True sib, Tip)"

function fix_ins :: "('k, 'v) frame list \<Rightarrow> ('k, 'v) shape \<Rightarrow> ('k, 'v) shape" where
  "fix_ins [] s = paint False s"
| "fix_ins [p] s = paint False (wrap p s)"
| "fix_ins (Frame dp pa pk pv pc sib # Frame dg ga gk gv gc u # fs) s =
     (if \<not> pc then paint False (plug (Frame dp pa pk pv pc sib # Frame dg ga gk gv gc u # fs) s)
      else if color_of u then
        fix_ins fs (wrap (Frame dg ga gk gv True (paint False u)) (wrap (Frame dp pa pk pv False sib) s))
      else (case ins_rot dg dp pa pk pv sib ga gk gv u s of (f, s') \<Rightarrow> fix_ins (f # fs) s'))"
  by pat_completeness auto
termination
  by (relation "measure (\<lambda>(fs, s). length fs)") auto

subsection \<open>The red-black conditions\<close>

text \<open>\<open>True\<close> is red, as in the field \<^verbatim>\<open>color\<close>. A null child counts as
  black. \<open>invh\<close>: both subtrees of every node have the same black height;
  \<open>invc\<close>: a red node has no red child; \<open>rbt\<close>: both, with a black root.
  \<open>ctx_h\<close> and \<open>ctx_c\<close> are the same conditions on a context whose hole takes
  a subtree of black height \<open>n\<close>.\<close>

fun bheight :: "('k, 'v) shape \<Rightarrow> nat" where
  "bheight Tip = 0"
| "bheight (Bin l a k v c r) = (if c then bheight l else Suc (bheight l))"

fun invh :: "('k, 'v) shape \<Rightarrow> bool" where
  "invh Tip \<longleftrightarrow> True"
| "invh (Bin l a k v c r) \<longleftrightarrow> bheight l = bheight r \<and> invh l \<and> invh r"

fun invc :: "('k, 'v) shape \<Rightarrow> bool" where
  "invc Tip \<longleftrightarrow> True"
| "invc (Bin l a k v c r) \<longleftrightarrow> (c \<longrightarrow> \<not> color_of l \<and> \<not> color_of r) \<and> invc l \<and> invc r"

definition rbt :: "('k, 'v) shape \<Rightarrow> bool" where
  "rbt t \<longleftrightarrow> \<not> color_of t \<and> invc t \<and> invh t"

fun ctx_h :: "nat \<Rightarrow> ('k, 'v) frame list \<Rightarrow> bool" where
  "ctx_h n [] \<longleftrightarrow> True"
| "ctx_h n (Frame d a k v c u # fs) \<longleftrightarrow>
     invh u \<and> bheight u = n \<and> ctx_h (if c then n else Suc n) fs"

fun ctx_c :: "('k, 'v) frame list \<Rightarrow> bool" where
  "ctx_c [] \<longleftrightarrow> True"
| "ctx_c (Frame d a k v c u # fs) \<longleftrightarrow>
     invc u \<and> (c \<longrightarrow> \<not> color_of u \<and> (fs \<noteq> [] \<longrightarrow> \<not> fcolor (hd fs))) \<and> ctx_c fs"

text \<open>The representation invariant of one map object: its tree is laid out in the
  heap, ordered by the comparator, red-black, and built from addresses that the allocator has
  already handed out.\<close>

definition map_inv :: "('k \<Rightarrow> 'k \<Rightarrow> bool) \<Rightarrow> ('k, 'v) world \<Rightarrow> mid \<Rightarrow> ('k, 'v) shape \<Rightarrow> bool" where
  "map_inv cmp w this t \<longleftrightarrow>
     map_shape w this t \<and> bst cmp t \<and> rbt t \<and> (\<forall>a \<in> set (addrs t). a < fresh w)"

section \<open>Basic facts\<close>

lemma bnd_simps [simp]:
  "bnd (ok a) f = f a"
  "bnd None f = None"
  "bnd fault f = fault"
  "bnd (Some (Raise e s)) f = Some (Raise e s)"
  by (simp_all add: bnd_def)

lemma fld_at: "h a = Some n \<Longrightarrow> fld f h (Some a) = ok (f n)"
  by (simp add: fld_def)

lemma fld_null [simp]: "fld f h None = fault"
  by (simp add: fld_def)

lemma upd_at: "h a = Some n \<Longrightarrow> upd g h (Some a) = ok (h(a \<mapsto> g n))"
  by (simp add: upd_def)

section \<open>Empty maps and default-constructed iterators\<close>

lemma minimum_null: "minimum h None = ok None"
  by (simp add: minimum.simps bnd_def)

text \<open>C9. A map that was just constructed, and a map that was just cleared, have
  \<open>begin() == end()\<close>: \<open>minimum\<close> of the null root is null, so \<open>begin()\<close> is the pair
  (null node, this container) that \<open>end()\<close> is.\<close>

theorem empty_begin_is_end:
  fixes w :: "('k, 'v) world"
  shows "map_begin (map_ctor w this) this = ok (map_end this)
    \<and> (map_clear w this = ok w' \<longrightarrow> map_begin w' this = ok (map_end this))
    \<and> iterator_eq (map_end this) (map_end this)"
  by (auto simp: map_begin_def map_ctor_def map_clear_def map_end_def obj_def bnd_def
      minimum_null iterator_eq_def split: option.splits result.splits)

theorem empty_begin_is_end_witness:
  "\<exists>w w' :: (nat, nat) world.
     insert_all (<) (map_ctor world_init 0) 0 [(2, 20), (1, 10), (3, 30)] = ok w
     \<and> map_clear w 0 = ok w' \<and> map_begin w' 0 = ok (map_end 0)"
proof -
  have "\<exists>w w' :: (nat, nat) world.
     insert_all (<) (map_ctor world_init 0) 0 [(2, 20), (1, 10), (3, 30)] = ok w
     \<and> map_clear w 0 = ok w'"
    by (simp add: run_prims run_tree run_map)
  then obtain w w' :: "(nat, nat) world" where
    1: "insert_all (<) (map_ctor world_init 0) 0 [(2, 20), (1, 10), (3, 30)] = ok w"
    and 2: "map_clear w 0 = ok w'"
    by blast
  from empty_begin_is_end [of w 0 w'] 2 have "map_begin w' 0 = ok (map_end 0)"
    by blast
  with 1 2 show ?thesis by blast
qed

lemma obtained_container:
  "map_begin w this = ok it \<Longrightarrow> container it = Some this"
  "map_cbegin w this = ok it \<Longrightarrow> container it = Some this"
  "map_find cmp w this k = ok it \<Longrightarrow> container it = Some this"
  "container (map_end this) = Some this"
  "container (map_cend this) = Some this"
  by (auto simp: map_begin_def map_cbegin_def map_find_def map_end_def map_cend_def
      bnd_def split: option.splits result.splits)

lemma insert_container:
  "map_insert cmp w this kv = ok (w', it, b) \<Longrightarrow> container it = Some this"
  by (auto simp: map_insert_def bnd_def split: option.splits result.splits prod.splits if_splits)

lemma inc_container: "iterator_inc w it = ok it' \<Longrightarrow> container it' = container it"
  by (auto simp: iterator_inc_def bnd_def split: option.splits result.splits prod.splits if_splits)

lemma dec_container: "iterator_dec w it = ok it' \<Longrightarrow> container it' = container it"
  by (auto simp: iterator_dec_def bnd_def split: option.splits result.splits prod.splits if_splits)

text \<open>C10. On a default-constructed iterator (null node, null container) dereference,
  member access, pre- and post-increment and pre- and post-decrement throw
  \<open>invalid_iterator\<close>; none of them reads through a null pointer. Such an iterator is
  not equal to \<open>end()\<close>, \<open>cend()\<close>, nor to an iterator returned by \<open>begin\<close>, \<open>cbegin\<close>,
  \<open>find\<close> or \<open>insert\<close>, nor to one reached from those by \<open>++\<close> or \<open>--\<close>.\<close>

theorem default_iterator_safe:
  fixes w :: "('k, 'v) world"
  shows "iterator_deref w iterator_default = Some (Raise invalid_iterator iterator_default)
    \<and> iterator_arrow w iterator_default = Some (Raise invalid_iterator iterator_default)
    \<and> iterator_inc w iterator_default = Some (Raise invalid_iterator iterator_default)
    \<and> iterator_post_inc w iterator_default = Some (Raise invalid_iterator iterator_default)
    \<and> iterator_dec w iterator_default = Some (Raise invalid_iterator iterator_default)
    \<and> iterator_post_dec w iterator_default = Some (Raise invalid_iterator iterator_default)
    \<and> \<not> iterator_eq iterator_default (map_end this)
    \<and> \<not> iterator_eq iterator_default (map_cend this)
    \<and> (map_begin w this = ok it \<longrightarrow> \<not> iterator_eq iterator_default it)
    \<and> (map_cbegin w this = ok it \<longrightarrow> \<not> iterator_eq iterator_default it)
    \<and> (map_find cmp w this k = ok it \<longrightarrow> \<not> iterator_eq iterator_default it)
    \<and> (map_insert cmp w this kv = ok (w', it, b) \<longrightarrow> \<not> iterator_eq iterator_default it)
    \<and> (container it \<noteq> None \<and> iterator_inc w it = ok it'
          \<longrightarrow> \<not> iterator_eq iterator_default it')
    \<and> (iterator_dec w it = ok it' \<longrightarrow> \<not> iterator_eq iterator_default it')"
proof -
  have throws: "iterator_deref w iterator_default = Some (Raise invalid_iterator iterator_default)"
    "iterator_arrow w iterator_default = Some (Raise invalid_iterator iterator_default)"
    "iterator_inc w iterator_default = Some (Raise invalid_iterator iterator_default)"
    "iterator_post_inc w iterator_default = Some (Raise invalid_iterator iterator_default)"
    "iterator_dec w iterator_default = Some (Raise invalid_iterator iterator_default)"
    "iterator_post_dec w iterator_default = Some (Raise invalid_iterator iterator_default)"
    by (simp_all add: iterator_deref_def iterator_arrow_def iterator_inc_def
        iterator_post_inc_def iterator_dec_def iterator_post_dec_def iterator_default_def bnd_def)
  have neq: "\<not> iterator_eq iterator_default j" if "container j \<noteq> None" for j
    using that by (auto simp: iterator_eq_def iterator_default_def)
  have dec: "node it' \<noteq> None" if "iterator_dec w it = ok it'"
    using that by (auto simp: iterator_dec_def bnd_def split: option.splits result.splits if_splits)
  have "\<not> iterator_eq iterator_default it'"
    if "container it \<noteq> None" "iterator_inc w it = ok it'"
    using that inc_container [of w it it'] neq [of it'] by auto
  moreover have "\<not> iterator_eq iterator_default it'" if "iterator_dec w it = ok it'"
    using dec [OF that] by (auto simp: iterator_eq_def iterator_default_def)
  ultimately show ?thesis
    using throws
    by (auto simp: map_end_def map_cend_def iterator_eq_def iterator_default_def
        dest!: obtained_container(1-3) insert_container)
qed

theorem default_iterator_safe_witness:
  "\<exists>(w :: (nat, nat) world) b f w' i n p.
     insert_all (<) (map_ctor world_init 0) 0 [(2, 20), (1, 10), (3, 30)] = ok w
     \<and> map_begin w 0 = (ok b :: (iterator, unit) result option)
     \<and> map_find (<) w 0 3 = (ok f :: (iterator, unit) result option)
     \<and> map_insert (<) w 0 (5, 50) = ok (w', i, True)
     \<and> container b \<noteq> None \<and> iterator_inc w b = ok n
     \<and> iterator_dec w f = ok p
     \<and> \<not> iterator_eq iterator_default b \<and> \<not> iterator_eq iterator_default f
     \<and> \<not> iterator_eq iterator_default i \<and> \<not> iterator_eq iterator_default n
     \<and> \<not> iterator_eq iterator_default p"
proof -
  have "\<exists>(w :: (nat, nat) world) b f w' i n p.
     insert_all (<) (map_ctor world_init 0) 0 [(2, 20), (1, 10), (3, 30)] = ok w
     \<and> map_begin w 0 = (ok b :: (iterator, unit) result option)
     \<and> map_find (<) w 0 3 = (ok f :: (iterator, unit) result option)
     \<and> map_insert (<) w 0 (5, 50) = ok (w', i, True)
     \<and> container b \<noteq> None \<and> iterator_inc w b = ok n
     \<and> iterator_dec w f = ok p"
    by (simp add: run_prims run_tree run_iter run_map)
  then obtain w :: "(nat, nat) world" and b f w' i n p where
    w: "insert_all (<) (map_ctor world_init 0) 0 [(2, 20), (1, 10), (3, 30)] = ok w"
    and b: "map_begin w 0 = (ok b :: (iterator, unit) result option)"
    and f: "map_find (<) w 0 3 = (ok f :: (iterator, unit) result option)"
    and i: "map_insert (<) w 0 (5, 50) = ok (w', i, True)"
    and n: "container b \<noteq> None" "iterator_inc w b = ok n"
    and p: "iterator_dec w f = ok p"
    by blast
  have "\<not> iterator_eq iterator_default b"
    using default_iterator_safe [of w 0 b] b by blast
  moreover have "\<not> iterator_eq iterator_default f"
    using default_iterator_safe [of w 0 f "(<)" 3] f by blast
  moreover have "\<not> iterator_eq iterator_default i"
    using default_iterator_safe [of w 0 i "(<)" _ "(5, 50)" w' True] i by blast
  moreover have "\<not> iterator_eq iterator_default n"
    using default_iterator_safe [of w 0 b _ _ _ _ _ n] n by blast
  moreover have "\<not> iterator_eq iterator_default p"
    using default_iterator_safe [of w 0 f _ _ _ _ _ p] p by blast
  ultimately show ?thesis
    using w b f i n p by blast
qed

section \<open>Erasing a black leaf\<close>

text \<open>C1, at a failing input. After inserting the keys 1, 2, 3, 4 the node of key 1 is a
  black leaf below the root. \<open>erase(find(1))\<close> splices it out and calls \<open>fixDelete\<close> on
  the null replacement; the first statement of the loop body reads \<open>x->parent\<close>
  through that null pointer.\<close>

theorem erase_black_leaf_reads_null:
  "\<exists>(w :: (nat, nat) world) it.
     insert_all (<) (map_ctor world_init 0) 0 [(1, 1), (2, 2), (3, 3), (4, 4)] = ok w
     \<and> map_find (<) w 0 1 = (ok it :: (iterator, unit) result option)
     \<and> iterator_deref w it = ok (1, 1)
     \<and> map_erase w 0 it = fault"
  by (simp add: run_prims run_tree run_iter run_map)

theorem erase_black_leaf_reads_null_witness:
  "\<exists>(w :: (nat, nat) world) it.
     insert_all (<) (map_ctor world_init 0) 0 [(1, 1), (2, 2), (3, 3), (4, 4)] = ok w
     \<and> map_find (<) w 0 1 = (ok it :: (iterator, unit) result option)
     \<and> (\<nexists>w'. map_erase w 0 it = ok w')"
  using erase_black_leaf_reads_null by fastforce

section \<open>Iterators walk the tree in order\<close>

lemma ptr_None [simp]: "ptr t = None \<longleftrightarrow> t = Tip"
  by (cases t) auto

lemma addrs_Nil [simp]: "addrs t = [] \<longleftrightarrow> t = Tip"
  by (cases t) auto

lemma ptr_in_addrs: "ptr t = Some a \<Longrightarrow> a \<in> set (addrs t)"
  by (cases t) auto

lemma length_entries [simp]: "length (entries t) = length (addrs t)"
  by (induction t) auto

lemma descend_left_shape:
  "heap_tree h par t \<Longrightarrow> t \<noteq> Tip \<Longrightarrow> descend_left h (ptr t) = ok (Some (hd (addrs t)))"
proof (induction t arbitrary: par)
  case Tip
  then show ?case by simp
next
  case (Bin l a k v c r)
  show ?case
  proof (cases "l = Tip")
    case True
    with Bin.prems show ?thesis
      by (subst descend_left.simps) (simp add: fld_at)
  next
    case False
    with Bin.prems Bin.IH(1) [of "Some a"] show ?thesis
      by (subst descend_left.simps) (simp add: fld_at )
  qed
qed

lemma descend_right_shape:
  "heap_tree h par t \<Longrightarrow> t \<noteq> Tip \<Longrightarrow> descend_right h (ptr t) = ok (Some (last (addrs t)))"
proof (induction t arbitrary: par)
  case Tip
  then show ?case by simp
next
  case (Bin l a k v c r)
  show ?case
  proof (cases "r = Tip")
    case True
    with Bin.prems show ?thesis
      by (subst descend_right.simps) (simp add: fld_at)
  next
    case False
    with Bin.prems Bin.IH(2) [of "Some a"] show ?thesis
      by (subst descend_right.simps) (simp add: fld_at )
  qed
qed

lemma minimum_shape:
  "heap_tree h par t \<Longrightarrow> minimum h (ptr t) = ok (if t = Tip then None else Some (hd (addrs t)))"
proof (induction t arbitrary: par)
  case Tip
  then show ?case by (simp add: minimum_null)
next
  case (Bin l a k v c r)
  show ?case
  proof (cases "l = Tip")
    case True
    with Bin.prems show ?thesis
      by (subst minimum.simps) (simp add: fld_at)
  next
    case False
    with Bin.prems Bin.IH(1) [of "Some a"] show ?thesis
      by (subst minimum.simps) (simp add: fld_at )
  qed
qed

lemma maximum_shape:
  "heap_tree h par t \<Longrightarrow> maximum h (ptr t) = ok (if t = Tip then None else Some (last (addrs t)))"
proof (induction t arbitrary: par)
  case Tip
  then show ?case by (subst maximum.simps) simp
next
  case (Bin l a k v c r)
  show ?case
  proof (cases "r = Tip")
    case True
    with Bin.prems show ?thesis
      by (subst maximum.simps) (simp add: fld_at)
  next
    case False
    with Bin.prems Bin.IH(2) [of "Some a"] show ?thesis
      by (subst maximum.simps) (simp add: fld_at )
  qed
qed


lemma ascend_right_null: "ascend_right h nd None = ok (nd, None)"
  by (subst ascend_right.simps) simp

lemma ascend_right_stop:
  "h p = Some n \<Longrightarrow> right n \<noteq> nd \<Longrightarrow> ascend_right h nd (Some p) = ok (nd, Some p)"
  by (subst ascend_right.simps) (auto simp: fld_at)

lemma ascend_right_go:
  "h p = Some n \<Longrightarrow> right n = nd \<Longrightarrow> ascend_right h nd (Some p) = ascend_right h (Some p) (parent n)"
  by (subst ascend_right.simps) (auto simp: fld_at)

lemma ascend_left_null: "ascend_left h nd None = ok (nd, None)"
  by (subst ascend_left.simps) simp

lemma ascend_left_stop:
  "h p = Some n \<Longrightarrow> left n \<noteq> nd \<Longrightarrow> ascend_left h nd (Some p) = ok (nd, Some p)"
  by (subst ascend_left.simps) (auto simp: fld_at)

lemma ascend_left_go:
  "h p = Some n \<Longrightarrow> left n = nd \<Longrightarrow> ascend_left h nd (Some p) = ascend_left h (Some p) (parent n)"
  by (subst ascend_left.simps) (auto simp: fld_at)

lemma ptr_neq:
  "distinct (addrs l @ a # addrs r) \<Longrightarrow> l \<noteq> Tip \<or> r \<noteq> Tip \<Longrightarrow> ptr l \<noteq> ptr r"
  by (cases l; cases r) auto

lemma succ_ptr_shape:
  "heap_tree h par t \<Longrightarrow> distinct (addrs t) \<Longrightarrow> i < length (addrs t) \<Longrightarrow>
   succ_ptr h (Some (addrs t ! i)) =
     (if Suc i < length (addrs t) then ok (Some (addrs t ! Suc i))
      else bnd (ascend_right h (ptr t) par) (\<lambda>(n, p). ok p))"
proof (induction t arbitrary: par i)
  case Tip
  then show ?case by simp
next
  case (Bin l a k v c r)
  let ?n = "\<lparr>data_first = k, data_second = v, left = ptr l, right = ptr r,
                 parent = par, color = c\<rparr>"
  from Bin.prems have ha: "h a = Some ?n" and hl: "heap_tree h (Some a) l"
    and hr: "heap_tree h (Some a) r" and dl: "distinct (addrs l)" and dr: "distinct (addrs r)"
    and d: "distinct (addrs l @ a # addrs r)"
    by auto
  consider (L) "i < length (addrs l)" | (M) "i = length (addrs l)"
    | (R) "length (addrs l) < i"
    by linarith
  then show ?case
  proof cases
    case L
    then have "l \<noteq> Tip" by auto
    with ptr_neq [OF d] have ne: "ptr r \<noteq> ptr l" by force
    show ?thesis
    proof (cases "Suc i < length (addrs l)")
      case True
      with L Bin.IH(1) [OF hl dl, of i] show ?thesis
        by (simp add: nth_append)
    next
      case False
      with L have "Suc i = length (addrs l)" by simp
      with L Bin.IH(1) [OF hl dl, of i] ne show ?thesis
        by (simp add: nth_append ascend_right_stop [where h=h and p=a, OF ha])
    qed
  next
    case M
    show ?thesis
    proof (cases "r = Tip")
      case True
      with M ha show ?thesis
        by (simp add: succ_ptr_def fld_at nth_append)
    next
      case False
      with M ha show ?thesis
        by (simp add: succ_ptr_def fld_at nth_append hd_conv_nth descend_left_shape [OF hr])
    qed
  next
    case R
    define j where "j = i - Suc (length (addrs l))"
    with R Bin.prems(3) have j: "j < length (addrs r)" "i = Suc (length (addrs l)) + j"
      by auto
    from j Bin.IH(2) [OF hr dr, of j] show ?thesis
      by (auto simp: nth_append ascend_right_go [where h=h and p=a, OF ha])
  qed
qed

lemma pred_ptr_shape:
  "heap_tree h par t \<Longrightarrow> distinct (addrs t) \<Longrightarrow> i < length (addrs t) \<Longrightarrow>
   pred_ptr h (Some (addrs t ! i)) =
     (if 0 < i then ok (Some (addrs t ! (i - 1)))
      else bnd (ascend_left h (ptr t) par) (\<lambda>(n, p). ok p))"
proof (induction t arbitrary: par i)
  case Tip
  then show ?case by simp
next
  case (Bin l a k v c r)
  let ?n = "\<lparr>data_first = k, data_second = v, left = ptr l, right = ptr r,
                 parent = par, color = c\<rparr>"
  from Bin.prems have ha: "h a = Some ?n" and hl: "heap_tree h (Some a) l"
    and hr: "heap_tree h (Some a) r" and dl: "distinct (addrs l)" and dr: "distinct (addrs r)"
    and d: "distinct (addrs l @ a # addrs r)"
    by auto
  consider (L) "i < length (addrs l)" | (M) "i = length (addrs l)"
    | (R) "length (addrs l) < i"
    by linarith
  then show ?case
  proof cases
    case L
    from L Bin.IH(1) [OF hl dl, of i] show ?thesis
      by (auto simp: nth_append ascend_left_go [where h=h and p=a, OF ha])
  next
    case M
    show ?thesis
    proof (cases "l = Tip")
      case True
      with M ha show ?thesis
        by (simp add: pred_ptr_def fld_at)
    next
      case False
      with M ha show ?thesis
        by (simp add: pred_ptr_def fld_at nth_append last_conv_nth descend_right_shape [OF hl])
    qed
  next
    case R
    define j where "j = i - Suc (length (addrs l))"
    with R Bin.prems(3) have j: "j < length (addrs r)" "i = Suc (length (addrs l)) + j"
      by auto
    then have "r \<noteq> Tip" by auto
    with ptr_neq [OF d] have ne: "ptr l \<noteq> ptr r" by force
    from j Bin.IH(2) [OF hr dr, of j] ne show ?thesis
      by (cases j) (auto simp: nth_append ascend_left_stop [where h=h and p=a, OF ha])
  qed
qed


lemma heap_tree_nth:
  "heap_tree h par t \<Longrightarrow> i < length (addrs t) \<Longrightarrow>
   \<exists>n. h (addrs t ! i) = Some n \<and> (data_first n, data_second n) = entries t ! i"
proof (induction t arbitrary: par i)
  case Tip
  then show ?case by simp
next
  case (Bin l a k v c r)
  consider (L) "i < length (addrs l)" | (M) "i = length (addrs l)"
    | (R) "length (addrs l) < i"
    by linarith
  then show ?case
  proof cases
    case L
    with Bin.prems Bin.IH(1) [of "Some a" i] show ?thesis
      by (simp add: nth_append)
  next
    case M
    with Bin.prems show ?thesis
      by (simp add: nth_append)
  next
    case R
    define j where "j = i - Suc (length (addrs l))"
    with R Bin.prems(2) have j: "j < length (addrs r)" "i = Suc (length (addrs l)) + j"
      by auto
    with Bin.prems Bin.IH(2) [of "Some a" j] show ?thesis
      by (simp add: nth_append)
  qed
qed

lemma iterator_inc_node:
  "node it = Some a \<Longrightarrow>
   iterator_inc w it = bnd (succ_ptr (nodes w) (Some a)) (\<lambda>n. ok (it\<lparr>node := n\<rparr>))"
  by (simp add: iterator_inc_def succ_ptr_def bnd_def split: option.splits result.splits prod.splits)

lemma iterator_dec_node:
  "node it = Some a \<Longrightarrow>
   iterator_dec w it = bnd (pred_ptr (nodes w) (Some a)) (\<lambda>n.
     if n = None then Some (Raise invalid_iterator (it\<lparr>node := n\<rparr>)) else ok (it\<lparr>node := n\<rparr>))"
  by (simp add: iterator_dec_def pred_ptr_def bnd_def split: option.splits result.splits prod.splits)

lemma inc_shape:
  assumes "map_shape w this t" "node it = Some (addrs t ! i)" "i < length (addrs t)"
  shows "iterator_inc w it =
    ok (it\<lparr>node := if Suc i < length (addrs t) then Some (addrs t ! Suc i) else None\<rparr>)"
  using assms
  by (simp add: iterator_inc_node map_shape_def succ_ptr_shape [where par=None] ascend_right_null)

lemma dec_shape:
  assumes "map_shape w this t" "node it = Some (addrs t ! i)" "i < length (addrs t)"
  shows "iterator_dec w it =
    (if 0 < i then ok (it\<lparr>node := Some (addrs t ! (i - 1))\<rparr>)
     else Some (Raise invalid_iterator (it\<lparr>node := None\<rparr>)))"
  using assms
  by (simp add: iterator_dec_node map_shape_def pred_ptr_shape [where par=None] ascend_left_null)

lemma dec_end_shape:
  assumes "map_shape w this t" "node it = None" "container it = Some this"
  shows "iterator_dec w it =
    (if t = Tip then Some (Raise invalid_iterator it)
     else ok (it\<lparr>node := Some (last (addrs t))\<rparr>))"
  using assms
  by (simp add: iterator_dec_def map_shape_def obj_def maximum_shape [where par=None])

lemma begin_shape:
  assumes "map_shape w this t"
  shows "map_begin w this =
    ok \<lparr>node = (if t = Tip then None else Some (addrs t ! 0)), container = Some this\<rparr>"
  using assms
  by (simp add: map_begin_def map_shape_def obj_def minimum_shape [where par=None] hd_conv_nth)

lemma deref_shape:
  assumes "map_shape w this t" "node it = Some (addrs t ! i)" "i < length (addrs t)"
  shows "iterator_deref w it = ok (entries t ! i)"
  using assms heap_tree_nth [of "nodes w" None t i]
  by (auto simp: iterator_deref_def map_shape_def fld_at)

lemma traverse_shape:
  assumes "map_shape w this t"
  shows "i \<le> length (addrs t) \<Longrightarrow>
    traverse w \<lparr>node = (if i < length (addrs t) then Some (addrs t ! i) else None),
                container = Some this\<rparr> (map_end this) = ok (drop i (entries t))"
proof (induction "length (addrs t) - i" arbitrary: i)
  case 0
  then show ?case
    by (subst traverse.simps) (simp add: iterator_neq_def iterator_eq_def map_end_def)
next
  case (Suc d)
  then have i: "i < length (addrs t)" by simp
  let ?it = "\<lparr>node = Some (addrs t ! i), container = Some this\<rparr>"
  have 1: "iterator_deref w ?it = ok (entries t ! i)"
    using assms i by (simp add: deref_shape)
  have 2: "iterator_inc w ?it =
      ok \<lparr>node = (if Suc i < length (addrs t) then Some (addrs t ! Suc i) else None),
           container = Some this\<rparr>"
    using assms i by (simp add: inc_shape)
  have 3: "traverse w \<lparr>node = (if Suc i < length (addrs t) then Some (addrs t ! Suc i) else None),
           container = Some this\<rparr> (map_end this) = ok (drop (Suc i) (entries t))"
    using Suc.hyps(1) [of "Suc i"] Suc.hyps(2) i by simp
  show ?case
    using i 1 2 3
    by (subst traverse.simps)
      (simp add: iterator_neq_def iterator_eq_def map_end_def Cons_nth_drop_Suc)
qed

lemma contents_shape:
  assumes "map_shape w this t"
  shows "contents w this = ok (entries t)"
proof -
  have "traverse w \<lparr>node = (if t = Tip then None else Some (addrs t ! 0)),
                container = Some this\<rparr> (map_end this) = ok (entries t)"
    using traverse_shape [OF assms, of 0] by (cases t) auto
  then show ?thesis
    by (simp add: contents_def begin_shape [OF assms])
qed

text \<open>C7. Let \<open>it\<close> be an iterator of the map \<open>this\<close> that stands at a node of its tree
  (so it is not \<open>end()\<close>). Then \<open>++it\<close> succeeds, \<open>--\<close> of the result succeeds, and the
  iterator reached compares equal to \<open>it\<close>. This holds at every node, \<open>begin()\<close> and the
  last node included: from the last node \<open>++\<close> reaches \<open>end()\<close>, and \<open>--\<close> from \<open>end()\<close>
  goes to the maximum.\<close>

theorem inc_then_dec:
  assumes "map_shape w this t" and "container it = Some this"
    and "node it = Some a" and "a \<in> set (addrs t)"
  shows "\<exists>it' it''. iterator_inc w it = ok it' \<and> iterator_dec w it' = ok it''
    \<and> iterator_eq it'' it"
proof -
  from assms(4) obtain i where i: "i < length (addrs t)" "a = addrs t ! i"
    by (auto simp: in_set_conv_nth)
  let ?it' = "it\<lparr>node := if Suc i < length (addrs t) then Some (addrs t ! Suc i) else None\<rparr>"
  have inc: "iterator_inc w it = ok ?it'"
    using assms(1,3) i by (simp add: inc_shape)
  have "iterator_dec w ?it' = ok (it\<lparr>node := Some (addrs t ! i)\<rparr>)"
  proof (cases "Suc i < length (addrs t)")
    case True
    then show ?thesis
      using dec_shape [OF assms(1), of ?it' "Suc i"] by simp
  next
    case False
    with i have "i = length (addrs t) - 1" and "addrs t \<noteq> []" by auto
    then have "t \<noteq> Tip" "last (addrs t) = addrs t ! i"
      by (simp_all add: last_conv_nth)
    with False show ?thesis
      using dec_end_shape [OF assms(1), of ?it'] assms(2) by simp
  qed
  with inc i assms(3) show ?thesis
    by (simp add: iterator_eq_def)
qed

theorem inc_then_dec_witness:
  "\<exists>(w :: (nat, nat) world) it it' it''.
     insert_all (<) (map_ctor world_init 0) 0 [(2, 20), (1, 10), (3, 30)] = ok w
     \<and> map_find (<) w 0 3 = (ok it :: (iterator, unit) result option)
     \<and> iterator_inc w it = ok it' \<and> iterator_dec w it' = ok it'' \<and> iterator_eq it'' it"
proof -
  let ?t = "Bin (Bin Tip 1 1 10 True Tip) 0 2 20 False (Bin Tip 2 3 30 True Tip)"
  let ?it = "\<lparr>node = Some 2, container = Some 0\<rparr>"
  have "\<exists>w :: (nat, nat) world.
     insert_all (<) (map_ctor world_init 0) 0 [(2, 20), (1, 10), (3, 30)] = ok w
     \<and> map_find (<) w 0 3 = (ok ?it :: (iterator, unit) result option)
     \<and> map_shape w 0 ?t"
    by (simp add: run_prims run_tree run_map map_shape_def)
  then obtain w :: "(nat, nat) world" where
    w: "insert_all (<) (map_ctor world_init 0) 0 [(2, 20), (1, 10), (3, 30)] = ok w"
    and f: "map_find (<) w 0 3 = (ok ?it :: (iterator, unit) result option)"
    and t: "map_shape w 0 ?t"
    by blast
  from inc_then_dec [OF t, of ?it 2] w f show ?thesis
    by auto
qed

text \<open>C6. The listed misuses all throw \<open>invalid_iterator\<close>: dereferencing, member access
  and (pre- or post-) increment at \<open>end()\<close>; decrement at the first element of a
  non-empty map; decrement at \<open>end()\<close> of a map whose root is null; \<open>erase\<close> of any
  \<open>end()\<close> iterator and of any iterator whose container is another map. The iterator
  operators only read the world, and the world that \<open>erase\<close> leaves behind when it
  throws is the one it was called in.\<close>

theorem invalid_iterator_usage:
  fixes w :: "('k, 'v) world"
  shows "iterator_deref w (map_end this) = Some (Raise invalid_iterator (map_end this))
    \<and> iterator_arrow w (map_end this) = Some (Raise invalid_iterator (map_end this))
    \<and> iterator_inc w (map_end this) = Some (Raise invalid_iterator (map_end this))
    \<and> iterator_post_inc w (map_end this) = Some (Raise invalid_iterator (map_end this))
    \<and> (map_shape w this t \<and> map_begin w this = (ok b :: (iterator, 's) result option)
          \<and> b \<noteq> map_end this \<longrightarrow>
          iterator_dec w b = Some (Raise invalid_iterator (b\<lparr>node := None\<rparr>))
          \<and> iterator_post_dec w b = Some (Raise invalid_iterator (b\<lparr>node := None\<rparr>)))
    \<and> (maps w this = Some m \<and> root m = None \<longrightarrow>
          iterator_dec w (map_end this) = Some (Raise invalid_iterator (map_end this))
          \<and> iterator_post_dec w (map_end this) = Some (Raise invalid_iterator (map_end this)))
    \<and> map_erase w this (map_end c) = Some (Raise invalid_iterator w)
    \<and> (container pos \<noteq> Some this \<longrightarrow> map_erase w this pos = Some (Raise invalid_iterator w))"
proof -
  have dec: "iterator_dec w b = Some (Raise invalid_iterator (b\<lparr>node := None\<rparr>))"
    if "map_shape w this t" "map_begin w this = (ok b :: (iterator, 's) result option)"
      "b \<noteq> map_end this"
  proof -
    from that(2) have b: "b = \<lparr>node = (if t = Tip then None else Some (addrs t ! 0)), container = Some this\<rparr>"
      by (simp add: begin_shape [OF that(1)])
    with that(3) have "t \<noteq> Tip" by (auto simp: map_end_def)
    with b show ?thesis
      using dec_shape [OF that(1), of b 0] by simp
  qed
  have end_dec: "iterator_dec w (map_end this) = Some (Raise invalid_iterator (map_end this))"
    if "maps w this = Some m" "root m = None"
    using that by (simp add: iterator_dec_def map_end_def obj_def)
  have erase: "map_erase w this (map_end c) = Some (Raise invalid_iterator w)"
    "container pos \<noteq> Some this \<Longrightarrow> map_erase w this pos = Some (Raise invalid_iterator w)"
    by (simp_all add: map_erase_def map_end_def)
  have "iterator_deref w (map_end this) = Some (Raise invalid_iterator (map_end this))"
    "iterator_arrow w (map_end this) = Some (Raise invalid_iterator (map_end this))"
    "iterator_inc w (map_end this) = Some (Raise invalid_iterator (map_end this))"
    "iterator_post_inc w (map_end this) = Some (Raise invalid_iterator (map_end this))"
    by (simp_all add: iterator_deref_def iterator_arrow_def iterator_inc_def
        iterator_post_inc_def map_end_def)
  with dec end_dec erase show ?thesis
    by (simp add: iterator_post_dec_def)
qed

theorem invalid_iterator_usage_witness:
  "\<exists>(w :: (nat, nat) world) b.
     insert_all (<) (map_ctor world_init 0) 0 [(2, 20), (1, 10), (3, 30)] = ok w
     \<and> map_begin w 0 = (ok b :: (iterator, iterator) result option) \<and> b \<noteq> map_end 0
     \<and> iterator_dec w b = Some (Raise invalid_iterator (b\<lparr>node := None\<rparr>))
     \<and> maps (map_ctor w 1) 1 = Some \<lparr>root = None, tree_size = 0\<rparr>
     \<and> iterator_dec (map_ctor w 1) (map_end 1) = Some (Raise invalid_iterator (map_end 1))
     \<and> container (map_end 1) \<noteq> Some 0
     \<and> map_erase w 0 (map_end 1) = Some (Raise invalid_iterator w)"
proof -
  let ?t = "Bin (Bin Tip 1 1 10 True Tip) 0 2 20 False (Bin Tip 2 3 30 True Tip)"
  let ?b = "\<lparr>node = Some 1, container = Some 0\<rparr>"
  have "\<exists>w :: (nat, nat) world.
     insert_all (<) (map_ctor world_init 0) 0 [(2, 20), (1, 10), (3, 30)] = ok w
     \<and> map_begin w 0 = (ok ?b :: (iterator, iterator) result option)
     \<and> map_shape w 0 ?t"
    by (simp add: run_prims run_tree run_map map_shape_def)
  then obtain w :: "(nat, nat) world" where
    w: "insert_all (<) (map_ctor world_init 0) 0 [(2, 20), (1, 10), (3, 30)] = ok w"
    and b: "map_begin w 0 = (ok ?b :: (iterator, iterator) result option)"
    and t: "map_shape w 0 ?t"
    by blast
  have m: "maps (map_ctor w 1) 1 = Some \<lparr>root = None, tree_size = 0\<rparr>"
    by (simp add: map_ctor_def)
  have ne: "?b \<noteq> map_end 0" "container (map_end 1) \<noteq> Some 0"
    by (simp_all add: map_end_def)
  from invalid_iterator_usage [of w 0 ?t ?b "\<lparr>root = None, tree_size = 0\<rparr>" 1 "map_end 1"] t b ne
  have "iterator_dec w ?b = Some (Raise invalid_iterator (?b\<lparr>node := None\<rparr>))"
    "map_erase w 0 (map_end 1) = Some (Raise invalid_iterator w)"
    by blast+
  moreover from invalid_iterator_usage [of "map_ctor w 1" 1 Tip "map_end 1"
      "\<lparr>root = None, tree_size = 0\<rparr>" 1 "map_end 1"] m
  have "iterator_dec (map_ctor w 1) (map_end 1) = Some (Raise invalid_iterator (map_end 1))"
    by simp
  ultimately show ?thesis
    using w b m ne by blast
qed

section \<open>Searching\<close>

lemma ptr_wrap [simp]: "ptr (wrap f t) = Some (faddr f)"
proof -
  obtain d a k v c s where "f = Frame d a k v c s" by (cases f)
  then show ?thesis by (cases d) simp_all
qed

lemma heap_tree_plug:
  "heap_tree h up (plug fs t) \<longleftrightarrow> heap_ctx h up fs (ptr t) \<and> heap_tree h (cpar up fs) t"
proof (induction fs arbitrary: t)
  case Nil
  then show ?case by simp
next
  case (Cons f fs)
  obtain d a k v c s where f: "f = Frame d a k v c s" by (cases f)
  show ?case
    unfolding plug.simps Cons.IH
    by (cases d) (auto simp: f)
qed

lemma plug_locate: "locate cmp k t fs = (fs', s) \<Longrightarrow> plug fs' s = plug fs t"
  by (induction t arbitrary: fs) (auto split: if_splits)

lemma insert_search_locate:
  "heap_tree h (cpar up fs) t \<Longrightarrow>
   insert_search cmp h k (cpar up fs) (ptr t) =
     (case locate cmp k t fs of (fs', s) \<Rightarrow> ok (if s = Tip then cpar up fs' else ptr s, ptr s))"
proof (induction t arbitrary: fs)
  case Tip
  then show ?case by (subst insert_search.simps) simp
next
  case (Bin l a kb vb c r)
  from Bin.prems have l: "heap_tree h (cpar up (Frame L a kb vb c r # fs)) l"
    and r: "heap_tree h (cpar up (Frame R a kb vb c l # fs)) r"
    by simp_all
  from Bin.prems Bin.IH(1) [OF l] Bin.IH(2) [OF r] show ?case
    by (subst insert_search.simps) (simp add: fld_at)
qed

lemma insert_search_root:
  "heap_tree h None t \<Longrightarrow>
   insert_search cmp h k None (ptr t) =
     (case locate cmp k t [] of (fs', s) \<Rightarrow> ok (if s = Tip then cpar None fs' else ptr s, ptr s))"
  using insert_search_locate [where fs="[]" and up=None] by simp

lemma findNode_locate:
  "heap_tree h par t \<Longrightarrow> findNode_from cmp h k (ptr t) = ok (ptr (snd (locate cmp k t fs)))"
proof (induction t arbitrary: fs par)
  case Tip
  then show ?case by (subst findNode_from.simps) simp
next
  case (Bin l a kb vb c r)
  from Bin.prems Bin.IH(1) [of "Some a" "Frame L a kb vb c r # fs"]
    Bin.IH(2) [of "Some a" "Frame R a kb vb c l # fs"] show ?case
    by (subst findNode_from.simps) (simp add: fld_at)
qed

lemma locate_present:
  assumes "strict_weak_order cmp"
  shows "bst cmp t \<Longrightarrow> (k', v') \<in> set (entries t) \<Longrightarrow> equiv_keys cmp k k' \<Longrightarrow>
    \<exists>l a c r. snd (locate cmp k t fs) = Bin l a k' v' c r"
proof (induction t arbitrary: fs)
  case Tip
  then show ?case by simp
next
  case (Bin l a kb vb c r)
  from assms have tr: "\<And>a b c. cmp a b \<Longrightarrow> cmp b c \<Longrightarrow> cmp a c"
    and etr: "\<And>a b c. equiv_keys cmp a b \<Longrightarrow> equiv_keys cmp b c \<Longrightarrow> equiv_keys cmp a c"
    unfolding strict_weak_order_def by blast+
  have sym: "equiv_keys cmp k' k" using Bin.prems(3) by (simp add: equiv_keys_def)
  consider (lt) "cmp k kb" | (gt) "\<not> cmp k kb" "cmp kb k" | (eq) "\<not> cmp k kb" "\<not> cmp kb k"
    by blast
  then show ?case
  proof cases
    case lt
    have "(k', v') \<in> set (entries l)"
    proof (rule ccontr)
      assume "(k', v') \<notin> set (entries l)"
      with Bin.prems(2) have "k' = kb \<or> (k', v') \<in> set (entries r)" by auto
      then have "cmp k k'"
        using lt Bin.prems(1) tr by fastforce
      with Bin.prems(3) show False by (simp add: equiv_keys_def)
    qed
    with lt Bin.prems Bin.IH(1) show ?thesis by simp
  next
    case gt
    have "(k', v') \<in> set (entries r)"
    proof (rule ccontr)
      assume "(k', v') \<notin> set (entries r)"
      with Bin.prems(2) have "k' = kb \<or> (k', v') \<in> set (entries l)" by auto
      then have "cmp k' k"
        using gt Bin.prems(1) tr by fastforce
      with Bin.prems(3) show False by (simp add: equiv_keys_def)
    qed
    with gt Bin.prems Bin.IH(2) show ?thesis by simp
  next
    case eq
    then have "equiv_keys cmp k kb" by (simp add: equiv_keys_def)
    with sym have e: "equiv_keys cmp k' kb" by (rule etr)
    have "(k', v') = (kb, vb)"
    proof (rule ccontr)
      assume "(k', v') \<noteq> (kb, vb)"
      with Bin.prems(2) have "(k', v') \<in> set (entries l) \<or> (k', v') \<in> set (entries r)" by auto
      with Bin.prems(1) have "cmp k' kb \<or> cmp kb k'" by fastforce
      with e show False by (simp add: equiv_keys_def)
    qed
    with eq show ?thesis by simp
  qed
qed

lemma locate_absent:
  "\<forall>e \<in> set (entries t). \<not> equiv_keys cmp k (fst e) \<Longrightarrow> snd (locate cmp k t fs) = Tip"
  by (induction t arbitrary: fs) (auto simp: equiv_keys_def)

lemma heap_tree_root:
  "heap_tree h par (Bin l a k v c r) \<Longrightarrow> \<exists>n. h a = Some n \<and> data_first n = k \<and> data_second n = v"
  by simp

text \<open>C4. When the map holds an entry \<open>(k', v')\<close> whose key is equivalent to \<open>k\<close>,
  \<open>insert\<close> of \<open>(k, v)\<close> returns \<open>false\<close> and an iterator of this map that
  dereferences to \<open>(k', v')\<close>, and the world it returns is the world it was called in:
  no node, no link, no colour, no value and not the size has changed.\<close>

theorem insert_duplicate:
  assumes "strict_weak_order cmp" and "map_shape w this t" and "bst cmp t"
    and "(k', v') \<in> set (entries t)" and "equiv_keys cmp k k'"
  shows "\<exists>it. map_insert cmp w this (k, v) = ok (w, it, False)
    \<and> container it = Some this \<and> iterator_deref w it = ok (k', v')"
proof -
  from locate_present [OF assms(1,3,4,5), of "[]"] obtain l a c r fs'
    where loc: "locate cmp k t [] = (fs', Bin l a k' v' c r)"
    by (metis prod.collapse)
  from assms(2) have h: "heap_tree (nodes w) None t"
    and m: "maps w this = Some \<lparr>root = ptr t, tree_size = length (addrs t)\<rparr>"
    by (simp_all add: map_shape_def)
  have ins: "map_insert cmp w this (k, v) = ok (w, \<lparr>node = Some a, container = Some this\<rparr>, False)"
    using m loc by (simp add: map_insert_def obj_def insert_search_root [OF h])
  from h have "heap_tree (nodes w) None (plug fs' (Bin l a k' v' c r))"
    using plug_locate [OF loc] by simp
  then have "\<exists>n. nodes w a = Some n \<and> data_first n = k' \<and> data_second n = v'"
    unfolding heap_tree_plug by simp
  then have "iterator_deref w \<lparr>node = Some a, container = Some this\<rparr> = ok (k', v')"
    by (auto simp: iterator_deref_def fld_at)
  with ins show ?thesis by simp
qed

theorem insert_duplicate_witness:
  "\<exists>(w :: (nat, nat) world) it.
     insert_all (<) (map_ctor world_init 0) 0 [(2, 20), (1, 10), (3, 30)] = ok w
     \<and> map_insert (<) w 0 (3, 99) = ok (w, it, False)
     \<and> container it = Some 0 \<and> iterator_deref w it = ok (3, 30)"
proof -
  let ?t = "Bin (Bin Tip 1 1 10 True Tip) 0 2 20 False (Bin Tip 2 3 30 True Tip) :: (nat, nat) shape"
  have "\<exists>w :: (nat, nat) world.
     insert_all (<) (map_ctor world_init 0) 0 [(2, 20), (1, 10), (3, 30)] = ok w
     \<and> map_shape w 0 ?t"
    by (simp add: run_prims run_tree run_map map_shape_def)
  then obtain w :: "(nat, nat) world" where
    w: "insert_all (<) (map_ctor world_init 0) 0 [(2, 20), (1, 10), (3, 30)] = ok w"
    and t: "map_shape w 0 ?t"
    by blast
  have swo: "strict_weak_order ((<) :: nat \<Rightarrow> nat \<Rightarrow> bool)"
    by (auto simp: strict_weak_order_def equiv_keys_def)
  have "bst (<) ?t" "(3, 30) \<in> set (entries ?t)" "equiv_keys (<) (3 :: nat) 3"
    by (simp_all add: equiv_keys_def)
  from insert_duplicate [OF swo t this, of 99] w show ?thesis
    by blast
qed

subsection \<open>Rotations\<close>

lemma heap_tree_upd [simp]:
  "a \<notin> set (addrs t) \<Longrightarrow> heap_tree (h(a := x)) par t = heap_tree h par t"
  by (induction t arbitrary: par) auto

lemma heap_ctx_upd [simp]:
  "a \<notin> set (caddrs fs) \<Longrightarrow> heap_ctx (h(a := x)) up fs p = heap_ctx h up fs p"
  by (induction fs arbitrary: p rule: caddrs.induct) auto

lemma set_addrs_plug: "set (addrs (plug fs t)) = set (addrs t) \<union> set (caddrs fs)"
proof (induction fs arbitrary: t rule: caddrs.induct)
  case 1
  then show ?case by simp
next
  case (2 d a k v c s fs)
  then show ?case by (cases d) auto
qed

lemma distinct_addrs_plug: "distinct (addrs (plug fs t)) \<longleftrightarrow> distinct (addrs t @ caddrs fs)"
proof (induction fs arbitrary: t rule: caddrs.induct)
  case 1
  then show ?case by simp
next
  case (2 d a k v c s fs)
  then show ?case by (cases d) auto
qed

lemma tree_at_plug:
  "tree_at h fs t \<longleftrightarrow> heap_tree h None (plug fs t) \<and> distinct (addrs (plug fs t))"
  by (auto simp: tree_at_def heap_tree_plug distinct_addrs_plug)

lemma tree_at_refocus: "tree_at h (f # fs) t \<longleftrightarrow> tree_at h fs (wrap f t)"
  by (simp add: tree_at_plug)

lemma ptr_outside [simp]:
  "a \<notin> set (addrs t) \<Longrightarrow> ptr t \<noteq> Some a"
  "a \<notin> set (addrs t) \<Longrightarrow> Some a \<noteq> ptr t"
  by (cases t; auto)+

lemma leftRotate_at:
  assumes "tree_at h fs (Bin a x kx vx cx (Bin b y ky vy cy c))"
  shows "\<exists>h'. leftRotate h rt (Some x) = ok (h', if fs = [] then Some y else rt)
    \<and> tree_at h' fs (Bin (Bin a x kx vx cx b) y ky vy cy c)
    \<and> same_outside (set (addrs (Bin a x kx vx cx (Bin b y ky vy cy c))) \<union> set (caddrs fs)) h h'"
proof (cases fs)
  case Nil
  show ?thesis
  proof (cases b)
    case Tip
    with Nil assms show ?thesis
      by (auto simp: tree_at_def leftRotate_def fld_at upd_at set_left_def set_right_def
          set_parent_def same_outside_def)
  next
    case (Bin b1 ba bk bv bc b2)
    with Nil assms show ?thesis
      by (auto simp: tree_at_def leftRotate_def fld_at upd_at set_left_def set_right_def
          set_parent_def same_outside_def)
  qed
next
  case (Cons f fs')
  obtain d pa pk pv pc s where f: "f = Frame d pa pk pv pc s" by (cases f)
  show ?thesis
  proof (cases b)
    case Tip
    with Cons f assms show ?thesis
      by (cases d) (auto simp: tree_at_def leftRotate_def fld_at upd_at set_left_def set_right_def
          set_parent_def same_outside_def)
  next
    case (Bin b1 ba bk bv bc b2)
    with Cons f assms show ?thesis
      by (cases d) (auto simp: tree_at_def leftRotate_def fld_at upd_at set_left_def set_right_def
          set_parent_def same_outside_def)
  qed
qed

lemma rightRotate_at:
  assumes "tree_at h fs (Bin (Bin a y ky vy cy b) x kx vx cx c)"
  shows "\<exists>h'. rightRotate h rt (Some x) = ok (h', if fs = [] then Some y else rt)
    \<and> tree_at h' fs (Bin a y ky vy cy (Bin b x kx vx cx c))
    \<and> same_outside (set (addrs (Bin (Bin a y ky vy cy b) x kx vx cx c)) \<union> set (caddrs fs)) h h'"
proof (cases fs)
  case Nil
  show ?thesis
  proof (cases b)
    case Tip
    with Nil assms show ?thesis
      by (auto simp: tree_at_def rightRotate_def fld_at upd_at set_left_def set_right_def
          set_parent_def same_outside_def)
  next
    case (Bin b1 ba bk bv bc b2)
    with Nil assms show ?thesis
      by (auto simp: tree_at_def rightRotate_def fld_at upd_at set_left_def set_right_def
          set_parent_def same_outside_def)
  qed
next
  case (Cons f fs')
  obtain d pa pk pv pc s where f: "f = Frame d pa pk pv pc s" by (cases f)
  show ?thesis
  proof (cases b)
    case Tip
    with Cons f assms show ?thesis
      by (cases d) (auto simp: tree_at_def rightRotate_def fld_at upd_at set_left_def set_right_def
          set_parent_def same_outside_def)
  next
    case (Bin b1 ba bk bv bc b2)
    with Cons f assms show ?thesis
      by (cases d) (auto simp: tree_at_def rightRotate_def fld_at upd_at set_left_def set_right_def
          set_parent_def same_outside_def)
  qed
qed

subsection \<open>The loop of \<^verbatim>\<open>fixInsert\<close>\<close>

lemma same_outside_refl [simp]: "same_outside A h h"
  by (simp add: same_outside_def)

lemma same_outside_trans:
  "same_outside A h h1 \<Longrightarrow> same_outside B h1 h2 \<Longrightarrow> A \<subseteq> C \<Longrightarrow> B \<subseteq> C \<Longrightarrow> same_outside C h h2"
  unfolding same_outside_def by (metis subsetD)

lemma same_outside_mono: "same_outside A h h' \<Longrightarrow> A \<subseteq> B \<Longrightarrow> same_outside B h h'"
  by (auto simp: same_outside_def)

lemma ptr_plug: "fs \<noteq> [] \<Longrightarrow> ptr (plug fs s) = Some (faddr (last fs))"
  by (induction fs arbitrary: s) auto

lemma faddr_last_in: "fs \<noteq> [] \<Longrightarrow> faddr (last fs) \<in> set (caddrs fs)"
  by (induction fs rule: caddrs.induct) auto

lemma plug_not_Tip [simp]: "plug fs s = Tip \<longleftrightarrow> fs = [] \<and> s = Tip"
proof (induction fs arbitrary: s)
  case Nil
  then show ?case by simp
next
  case (Cons f fs)
  obtain d a k v c t where "f = Frame d a k v c t" by (cases f)
  with Cons show ?case by (cases d) auto
qed

lemma set_color_root:
  assumes "tree_at h [] t" "t \<noteq> Tip"
  shows "\<exists>h'. set_color h (ptr t) c = ok h' \<and> tree_at h' [] (paint c t)
    \<and> same_outside (set (addrs t)) h h'"
  using assms
  by (cases t) (auto simp: tree_at_def set_color_def upd_at same_outside_def)

lemma fixInsert_exit:
  assumes "tree_at h fs s" "s \<noteq> Tip" "fs = [] \<or> \<not> fcolor (hd fs)"
  shows "\<exists>h'. fixInsert h (ptr (plug fs s)) (ptr s) = (ok (h', ptr (plug fs s)) :: (_, 's) result option)
    \<and> tree_at h' [] (paint False (plug fs s))
    \<and> same_outside (set (addrs (plug fs s))) h h'"
proof -
  from assms(1) have t: "tree_at h [] (plug fs s)"
    by (simp add: tree_at_plug)
  have ne: "plug fs s \<noteq> Tip" using assms(2) by simp
  have go: "(if ptr s \<noteq> ptr (plug fs s) then bnd (fld parent h (ptr s)) (fld color h) else ok False)
      = (ok False :: (_, 's) result option)"
  proof (cases fs)
    case Nil
    then show ?thesis by simp
  next
    case (Cons f fs')
    obtain d a k v c u where f: "f = Frame d a k v c u" by (cases f)
    with assms Cons show ?thesis
      by (cases s) (auto simp: tree_at_def fld_at)
  qed
  from set_color_root [OF t ne, of False] obtain h' where
    "set_color h (ptr (plug fs s)) False = (ok h' :: (_, 's) result option)"
    "tree_at h' [] (paint False (plug fs s))" "same_outside (set (addrs (plug fs s))) h h'"
    by blast
  then show ?thesis
    by (subst fixInsert.simps) (simp add: go)
qed

lemma rot_at_L:
  assumes "tree_at h fs (wrap (Frame L x kx vx cx c) (wrap (Frame R y ky vy cy a) b))"
  shows "\<exists>h'. rightRotate h rt (Some x) = ok (h', if fs = [] then Some y else rt)
    \<and> tree_at h' fs (wrap (Frame R y ky vy cy a) (wrap (Frame L x kx vx cx c) b))
    \<and> same_outside (set (addrs (plug fs (wrap (Frame L x kx vx cx c) (wrap (Frame R y ky vy cy a) b))))) h h'"
  using rightRotate_at [of h fs a y ky vy cy b x kx vx cx c rt] assms
  by (simp add: set_addrs_plug)

lemma rot_at_R:
  assumes "tree_at h fs (wrap (Frame R x kx vx cx c) (wrap (Frame L y ky vy cy a) b))"
  shows "\<exists>h'. leftRotate h rt (Some x) = ok (h', if fs = [] then Some y else rt)
    \<and> tree_at h' fs (wrap (Frame L y ky vy cy a) (wrap (Frame R x kx vx cx c) b))
    \<and> same_outside (set (addrs (plug fs (wrap (Frame R x kx vx cx c) (wrap (Frame L y ky vy cy a) b))))) h h'"
  using leftRotate_at [of h fs c x kx vx cx b y ky vy cy a rt] assms
  by (simp add: set_addrs_plug)

lemma fixInsert_body_line_L:
  assumes "tree_at h (Frame L pa pk pv True sib # Frame L ga gk gv gc u # fs) (Bin zl z zk zv zc zr)"
    and "\<not> color_of u"
  shows "\<exists>h'. fixInsert_body h rt (Some z) =
      (ok (h', if fs = [] then Some pa else rt, Some z) :: (_, 's) result option)
    \<and> tree_at h' (Frame L pa pk pv False (wrap (Frame L ga gk gv True u) sib) # fs) (Bin zl z zk zv zc zr)
    \<and> same_outside (set (addrs (plug (Frame L pa pk pv True sib # Frame L ga gk gv gc u # fs) (Bin zl z zk zv zc zr)))) h h'"
proof -
  let ?s = "Bin zl z zk zv zc zr"
  let ?A = "set (addrs (plug (Frame L pa pk pv True sib # Frame L ga gk gv gc u # fs) ?s))"
  from assms(1) have f: "h z = Some \<lparr>data_first = zk, data_second = zv, left = ptr zl, right = ptr zr,
        parent = Some pa, color = zc\<rparr>"
    "h pa = Some (fnode L pk pv (Some z) (ptr sib) (Some ga) True)"
    "h ga = Some (fnode L gk gv (Some pa) (ptr u) (cpar None fs) gc)"
    and d: "z \<noteq> pa" "z \<noteq> ga" "pa \<noteq> ga" "Some z \<noteq> ptr sib"
    by (auto simp: tree_at_def fnode_def)
  define h2 where "h2 = h(pa \<mapsto> fnode L pk pv (Some z) (ptr sib) (Some ga) False,
    ga \<mapsto> fnode L gk gv (Some pa) (ptr u) (cpar None fs) True)"
  have t2: "tree_at h2 fs (wrap (Frame L ga gk gv True u) (wrap (Frame R pa pk pv False ?s) sib))"
    using assms(1) by (auto simp: tree_at_def h2_def fnode_def)
  have so2: "same_outside ?A h h2"
    by (auto simp: same_outside_def h2_def set_addrs_plug)
  from rot_at_L [OF t2, of rt] obtain h3 where
    r: "rightRotate h2 rt (Some ga) = (ok (h3, if fs = [] then Some pa else rt) :: (_, 's) result option)"
    and t3: "tree_at h3 fs (wrap (Frame R pa pk pv False ?s) (wrap (Frame L ga gk gv True u) sib))"
    and so3: "same_outside (set (addrs (plug fs (wrap (Frame L ga gk gv True u) (wrap (Frame R pa pk pv False ?s) sib))))) h2 h3"
    by blast
  have pre: "fixInsert_body h rt (Some z) =
      bnd (rightRotate h2 rt (Some ga)) (\<lambda>(h, rt). (ok (h, rt, Some z) :: (_, 's) result option))"
  proof (cases u)
    case Tip
    then show ?thesis
      using d by (simp add: fixInsert_body_def fld_at upd_at set_color_def f h2_def fnode_def)
  next
    case (Bin ul ua uk uv uc ur)
    with assms have uc: "fld color h (Some ua) = (ok False :: (bool, 's) result option)"
      and ne: "pa \<noteq> ua" "z \<noteq> ua" "ga \<noteq> ua"
      by (auto simp: tree_at_def fld_at)
    from Bin show ?thesis
      using d ne by (simp add: fixInsert_body_def fld_at upd_at set_color_def f h2_def fnode_def uc)
  qed
  have body: "fixInsert_body h rt (Some z) =
      (ok (h3, if fs = [] then Some pa else rt, Some z) :: (_, 's) result option)"
    by (simp add: pre r)
  have t: "tree_at h3 (Frame L pa pk pv False (wrap (Frame L ga gk gv True u) sib) # fs) ?s"
    using t3 by (simp add: tree_at_refocus)
  have so: "same_outside ?A h h3"
    using so2 so3 by (rule same_outside_trans) (auto simp: set_addrs_plug)
  from body t so show ?thesis by blast
qed

lemma fixInsert_body_line_R:
  assumes "tree_at h (Frame R pa pk pv True sib # Frame R ga gk gv gc u # fs) (Bin zl z zk zv zc zr)"
    and "\<not> color_of u"
  shows "\<exists>h'. fixInsert_body h rt (Some z) =
      (ok (h', if fs = [] then Some pa else rt, Some z) :: (_, 's) result option)
    \<and> tree_at h' (Frame R pa pk pv False (wrap (Frame R ga gk gv True u) sib) # fs) (Bin zl z zk zv zc zr)
    \<and> same_outside (set (addrs (plug (Frame R pa pk pv True sib # Frame R ga gk gv gc u # fs) (Bin zl z zk zv zc zr)))) h h'"
proof -
  let ?s = "Bin zl z zk zv zc zr"
  let ?A = "set (addrs (plug (Frame R pa pk pv True sib # Frame R ga gk gv gc u # fs) ?s))"
  from assms(1) have f: "h z = Some \<lparr>data_first = zk, data_second = zv, left = ptr zl, right = ptr zr,
        parent = Some pa, color = zc\<rparr>"
    "h pa = Some (fnode R pk pv (Some z) (ptr sib) (Some ga) True)"
    "h ga = Some (fnode R gk gv (Some pa) (ptr u) (cpar None fs) gc)"
    and d: "z \<noteq> pa" "z \<noteq> ga" "pa \<noteq> ga" "Some z \<noteq> ptr sib"
    by (auto simp: tree_at_def fnode_def)
  define h2 where "h2 = h(pa \<mapsto> fnode R pk pv (Some z) (ptr sib) (Some ga) False,
    ga \<mapsto> fnode R gk gv (Some pa) (ptr u) (cpar None fs) True)"
  have t2: "tree_at h2 fs (wrap (Frame R ga gk gv True u) (wrap (Frame L pa pk pv False ?s) sib))"
    using assms(1) by (auto simp: tree_at_def h2_def fnode_def)
  have so2: "same_outside ?A h h2"
    by (auto simp: same_outside_def h2_def set_addrs_plug)
  from rot_at_R [OF t2, of rt] obtain h3 where
    r: "leftRotate h2 rt (Some ga) = (ok (h3, if fs = [] then Some pa else rt) :: (_, 's) result option)"
    and t3: "tree_at h3 fs (wrap (Frame L pa pk pv False ?s) (wrap (Frame R ga gk gv True u) sib))"
    and so3: "same_outside (set (addrs (plug fs (wrap (Frame R ga gk gv True u) (wrap (Frame L pa pk pv False ?s) sib))))) h2 h3"
    by blast
  have pre: "fixInsert_body h rt (Some z) =
      bnd (leftRotate h2 rt (Some ga)) (\<lambda>(h, rt). (ok (h, rt, Some z) :: (_, 's) result option))"
  proof (cases u)
    case Tip
    then show ?thesis
      using d by (simp add: fixInsert_body_def fld_at upd_at set_color_def f h2_def fnode_def)
  next
    case (Bin ul ua uk uv uc ur)
    with assms have uc: "fld color h (Some ua) = (ok False :: (bool, 's) result option)"
      and ne: "pa \<noteq> ua" "z \<noteq> ua" "ga \<noteq> ua"
      by (auto simp: tree_at_def fld_at)
    from Bin show ?thesis
      using d ne by (simp add: fixInsert_body_def fld_at upd_at set_color_def f h2_def fnode_def uc)
  qed
  have body: "fixInsert_body h rt (Some z) =
      (ok (h3, if fs = [] then Some pa else rt, Some z) :: (_, 's) result option)"
    by (simp add: pre r)
  have t: "tree_at h3 (Frame R pa pk pv False (wrap (Frame R ga gk gv True u) sib) # fs) ?s"
    using t3 by (simp add: tree_at_refocus)
  have so: "same_outside ?A h h3"
    using so2 so3 by (rule same_outside_trans) (auto simp: set_addrs_plug)
  from body t so show ?thesis by blast
qed

lemma fixInsert_body_triangle_L:
  assumes "tree_at h (Frame R pa pk pv True sib # Frame L ga gk gv gc u # fs) (wrap (Frame L z zk zv zc zo) zi)"
    and "\<not> color_of u"
  shows "\<exists>h'. fixInsert_body h rt (Some z) =
      (ok (h', if fs = [] then Some z else rt, Some pa) :: (_, 's) result option)
    \<and> tree_at h' (Frame L z zk zv False (wrap (Frame L ga gk gv True u) zo) # fs)
         (wrap (Frame R pa pk pv True sib) zi)
    \<and> same_outside (set (addrs (plug (Frame R pa pk pv True sib # Frame L ga gk gv gc u # fs) (wrap (Frame L z zk zv zc zo) zi)))) h h'"
proof -
  let ?s = "wrap (Frame L z zk zv zc zo) zi"
  let ?g = "Frame L ga gk gv gc u"
  let ?p' = "wrap (Frame R pa pk pv True sib) zi"
  let ?A = "set (addrs (plug (Frame R pa pk pv True sib # ?g # fs) ?s))"
  from assms(1) have f: "h z = Some (fnode L zk zv (ptr zi) (ptr zo) (Some pa) zc)"
    "h pa = Some (fnode R pk pv (Some z) (ptr sib) (Some ga) True)"
    "h ga = Some (fnode L gk gv (Some pa) (ptr u) (cpar None fs) gc)"
    and d: "z \<noteq> pa" "z \<noteq> ga" "pa \<noteq> ga"
    by (auto simp: tree_at_def fnode_def)
  from assms(1) have t0: "tree_at h (?g # fs) (wrap (Frame R pa pk pv True sib) (wrap (Frame L z zk zv zc zo) zi))"
    by (simp add: tree_at_refocus)
  from rot_at_R [OF t0, of rt] obtain h1 where
    r1: "leftRotate h rt (Some pa) = (ok (h1, rt) :: (_, 's) result option)"
    and t1: "tree_at h1 (?g # fs) (wrap (Frame L z zk zv zc zo) ?p')"
    and so1: "same_outside (set (addrs (plug (?g # fs) (wrap (Frame R pa pk pv True sib) (wrap (Frame L z zk zv zc zo) zi))))) h h1"
    by auto
  from t1 have f1: "h1 z = Some (fnode L zk zv (Some pa) (ptr zo) (Some ga) zc)"
    "h1 pa = Some (fnode R pk pv (ptr zi) (ptr sib) (Some z) True)"
    "h1 ga = Some (fnode L gk gv (Some z) (ptr u) (cpar None fs) gc)"
    by (auto simp: tree_at_def fnode_def)
  define h3 where "h3 = h1(z \<mapsto> fnode L zk zv (Some pa) (ptr zo) (Some ga) False,
    ga \<mapsto> fnode L gk gv (Some z) (ptr u) (cpar None fs) True)"
  have t3: "tree_at h3 fs (wrap (Frame L ga gk gv True u) (wrap (Frame R z zk zv False ?p') zo))"
    using t1 by (auto simp: tree_at_def h3_def fnode_def)
  have so3: "same_outside ?A h1 h3"
    by (auto simp: same_outside_def h3_def set_addrs_plug)
  from rot_at_L [OF t3, of rt] obtain h4 where
    r4: "rightRotate h3 rt (Some ga) = (ok (h4, if fs = [] then Some z else rt) :: (_, 's) result option)"
    and t4: "tree_at h4 fs (wrap (Frame R z zk zv False ?p') (wrap (Frame L ga gk gv True u) zo))"
    and so4: "same_outside (set (addrs (plug fs (wrap (Frame L ga gk gv True u) (wrap (Frame R z zk zv False ?p') zo))))) h3 h4"
    by blast
  have pre: "fixInsert_body h rt (Some z) =
      bnd (rightRotate h3 rt (Some ga)) (\<lambda>(h, rt). (ok (h, rt, Some pa) :: (_, 's) result option))"
  proof (cases u)
    case Tip
    then show ?thesis
      using d by (simp add: fixInsert_body_def fld_at upd_at set_color_def f r1 f1 h3_def fnode_def)
  next
    case (Bin ul ua uk uv uc ur)
    with assms have uc: "fld color h (Some ua) = (ok False :: (bool, 's) result option)"
      and ne: "pa \<noteq> ua" "z \<noteq> ua" "ga \<noteq> ua"
      by (auto simp: tree_at_def fld_at)
    from Bin show ?thesis
      using d ne by (simp add: fixInsert_body_def fld_at upd_at set_color_def f r1 f1 h3_def fnode_def uc)
  qed
  have body: "fixInsert_body h rt (Some z) =
      (ok (h4, if fs = [] then Some z else rt, Some pa) :: (_, 's) result option)"
    by (simp add: pre r4)
  have t: "tree_at h4 (Frame L z zk zv False (wrap (Frame L ga gk gv True u) zo) # fs) ?p'"
    using t4 by (simp add: tree_at_refocus)
  have "same_outside ?A h h3"
    using so1 so3 by (rule same_outside_trans) (auto simp: set_addrs_plug)
  then have so: "same_outside ?A h h4"
    using so4 by (rule same_outside_trans) (auto simp: set_addrs_plug)
  from body t so show ?thesis by blast
qed

lemma fixInsert_body_triangle_R:
  assumes "tree_at h (Frame L pa pk pv True sib # Frame R ga gk gv gc u # fs) (wrap (Frame R z zk zv zc zo) zi)"
    and "\<not> color_of u"
  shows "\<exists>h'. fixInsert_body h rt (Some z) =
      (ok (h', if fs = [] then Some z else rt, Some pa) :: (_, 's) result option)
    \<and> tree_at h' (Frame R z zk zv False (wrap (Frame R ga gk gv True u) zo) # fs)
         (wrap (Frame L pa pk pv True sib) zi)
    \<and> same_outside (set (addrs (plug (Frame L pa pk pv True sib # Frame R ga gk gv gc u # fs) (wrap (Frame R z zk zv zc zo) zi)))) h h'"
proof -
  let ?s = "wrap (Frame R z zk zv zc zo) zi"
  let ?g = "Frame R ga gk gv gc u"
  let ?p' = "wrap (Frame L pa pk pv True sib) zi"
  let ?A = "set (addrs (plug (Frame L pa pk pv True sib # ?g # fs) ?s))"
  from assms(1) have f: "h z = Some (fnode R zk zv (ptr zi) (ptr zo) (Some pa) zc)"
    "h pa = Some (fnode L pk pv (Some z) (ptr sib) (Some ga) True)"
    "h ga = Some (fnode R gk gv (Some pa) (ptr u) (cpar None fs) gc)"
    and d: "z \<noteq> pa" "z \<noteq> ga" "pa \<noteq> ga"
    by (auto simp: tree_at_def fnode_def)
  from assms(1) have t0: "tree_at h (?g # fs) (wrap (Frame L pa pk pv True sib) (wrap (Frame R z zk zv zc zo) zi))"
    by (simp add: tree_at_refocus)
  from rot_at_L [OF t0, of rt] obtain h1 where
    r1: "rightRotate h rt (Some pa) = (ok (h1, rt) :: (_, 's) result option)"
    and t1: "tree_at h1 (?g # fs) (wrap (Frame R z zk zv zc zo) ?p')"
    and so1: "same_outside (set (addrs (plug (?g # fs) (wrap (Frame L pa pk pv True sib) (wrap (Frame R z zk zv zc zo) zi))))) h h1"
    by auto
  from t1 have f1: "h1 z = Some (fnode R zk zv (Some pa) (ptr zo) (Some ga) zc)"
    "h1 pa = Some (fnode L pk pv (ptr zi) (ptr sib) (Some z) True)"
    "h1 ga = Some (fnode R gk gv (Some z) (ptr u) (cpar None fs) gc)"
    by (auto simp: tree_at_def fnode_def)
  define h3 where "h3 = h1(z \<mapsto> fnode R zk zv (Some pa) (ptr zo) (Some ga) False,
    ga \<mapsto> fnode R gk gv (Some z) (ptr u) (cpar None fs) True)"
  have t3: "tree_at h3 fs (wrap (Frame R ga gk gv True u) (wrap (Frame L z zk zv False ?p') zo))"
    using t1 by (auto simp: tree_at_def h3_def fnode_def)
  have so3: "same_outside ?A h1 h3"
    by (auto simp: same_outside_def h3_def set_addrs_plug)
  from rot_at_R [OF t3, of rt] obtain h4 where
    r4: "leftRotate h3 rt (Some ga) = (ok (h4, if fs = [] then Some z else rt) :: (_, 's) result option)"
    and t4: "tree_at h4 fs (wrap (Frame L z zk zv False ?p') (wrap (Frame R ga gk gv True u) zo))"
    and so4: "same_outside (set (addrs (plug fs (wrap (Frame R ga gk gv True u) (wrap (Frame L z zk zv False ?p') zo))))) h3 h4"
    by blast
  have pre: "fixInsert_body h rt (Some z) =
      bnd (leftRotate h3 rt (Some ga)) (\<lambda>(h, rt). (ok (h, rt, Some pa) :: (_, 's) result option))"
  proof (cases u)
    case Tip
    then show ?thesis
      using d by (simp add: fixInsert_body_def fld_at upd_at set_color_def f r1 f1 h3_def fnode_def)
  next
    case (Bin ul ua uk uv uc ur)
    with assms have uc: "fld color h (Some ua) = (ok False :: (bool, 's) result option)"
      and ne: "pa \<noteq> ua" "z \<noteq> ua" "ga \<noteq> ua"
      by (auto simp: tree_at_def fld_at)
    from Bin show ?thesis
      using d ne by (simp add: fixInsert_body_def fld_at upd_at set_color_def f r1 f1 h3_def fnode_def uc)
  qed
  have body: "fixInsert_body h rt (Some z) =
      (ok (h4, if fs = [] then Some z else rt, Some pa) :: (_, 's) result option)"
    by (simp add: pre r4)
  have t: "tree_at h4 (Frame R z zk zv False (wrap (Frame R ga gk gv True u) zo) # fs) ?p'"
    using t4 by (simp add: tree_at_refocus)
  have "same_outside ?A h h3"
    using so1 so3 by (rule same_outside_trans) (auto simp: set_addrs_plug)
  then have so: "same_outside ?A h h4"
    using so4 by (rule same_outside_trans) (auto simp: set_addrs_plug)
  from body t so show ?thesis by blast
qed

lemma fixInsert_body_recolor_LL:
  assumes "tree_at h (Frame L pa pk pv True sib # Frame L ga gk gv gc (Bin ul ua uk uv True ur) # fs) (Bin zl z zk zv zc zr)"
  shows "\<exists>h'. fixInsert_body h rt (Some z) = (ok (h', rt, Some ga) :: (_, 's) result option)
    \<and> tree_at h' fs (wrap (Frame L ga gk gv True (Bin ul ua uk uv False ur))
         (wrap (Frame L pa pk pv False sib) (Bin zl z zk zv zc zr)))
    \<and> same_outside (set (addrs (plug (Frame L pa pk pv True sib # Frame L ga gk gv gc (Bin ul ua uk uv True ur) # fs) (Bin zl z zk zv zc zr)))) h h'"
proof -
  let ?h' = "h(pa \<mapsto> fnode L pk pv (Some z) (ptr sib) (Some ga) False,
    ua \<mapsto> \<lparr>data_first = uk, data_second = uv, left = ptr ul, right = ptr ur,
      parent = Some ga, color = False\<rparr>,
    ga \<mapsto> fnode L gk gv (Some pa) (Some ua) (cpar None fs) True)"
  from assms have f: "h z = Some \<lparr>data_first = zk, data_second = zv, left = ptr zl, right = ptr zr,
        parent = Some pa, color = zc\<rparr>"
    "h pa = Some (fnode L pk pv (Some z) (ptr sib) (Some ga) True)"
    "h ga = Some (fnode L gk gv (Some pa) (Some ua) (cpar None fs) gc)"
    "h ua = Some \<lparr>data_first = uk, data_second = uv, left = ptr ul, right = ptr ur,
        parent = Some ga, color = True\<rparr>"
    and d: "z \<noteq> pa" "z \<noteq> ga" "z \<noteq> ua" "pa \<noteq> ga" "pa \<noteq> ua" "ga \<noteq> ua"
    by (auto simp: tree_at_def fnode_def)
  have body: "fixInsert_body h rt (Some z) = (ok (?h', rt, Some ga) :: (_, 's) result option)"
    using d by (simp add: fixInsert_body_def fld_at upd_at set_color_def f fnode_def)
  have t: "tree_at ?h' fs (wrap (Frame L ga gk gv True (Bin ul ua uk uv False ur))
         (wrap (Frame L pa pk pv False sib) (Bin zl z zk zv zc zr)))"
    using assms by (auto simp: tree_at_def fnode_def)
  have so: "same_outside (set (addrs (plug (Frame L pa pk pv True sib # Frame L ga gk gv gc (Bin ul ua uk uv True ur) # fs) (Bin zl z zk zv zc zr)))) h ?h'"
    by (auto simp: same_outside_def set_addrs_plug)
  from body t so show ?thesis by blast
qed

lemma fixInsert_body_recolor_LR:
  assumes "tree_at h (Frame R pa pk pv True sib # Frame L ga gk gv gc (Bin ul ua uk uv True ur) # fs) (Bin zl z zk zv zc zr)"
  shows "\<exists>h'. fixInsert_body h rt (Some z) = (ok (h', rt, Some ga) :: (_, 's) result option)
    \<and> tree_at h' fs (wrap (Frame L ga gk gv True (Bin ul ua uk uv False ur))
         (wrap (Frame R pa pk pv False sib) (Bin zl z zk zv zc zr)))
    \<and> same_outside (set (addrs (plug (Frame R pa pk pv True sib # Frame L ga gk gv gc (Bin ul ua uk uv True ur) # fs) (Bin zl z zk zv zc zr)))) h h'"
proof -
  let ?h' = "h(pa \<mapsto> fnode R pk pv (Some z) (ptr sib) (Some ga) False,
    ua \<mapsto> \<lparr>data_first = uk, data_second = uv, left = ptr ul, right = ptr ur,
      parent = Some ga, color = False\<rparr>,
    ga \<mapsto> fnode L gk gv (Some pa) (Some ua) (cpar None fs) True)"
  from assms have f: "h z = Some \<lparr>data_first = zk, data_second = zv, left = ptr zl, right = ptr zr,
        parent = Some pa, color = zc\<rparr>"
    "h pa = Some (fnode R pk pv (Some z) (ptr sib) (Some ga) True)"
    "h ga = Some (fnode L gk gv (Some pa) (Some ua) (cpar None fs) gc)"
    "h ua = Some \<lparr>data_first = uk, data_second = uv, left = ptr ul, right = ptr ur,
        parent = Some ga, color = True\<rparr>"
    and d: "z \<noteq> pa" "z \<noteq> ga" "z \<noteq> ua" "pa \<noteq> ga" "pa \<noteq> ua" "ga \<noteq> ua"
    by (auto simp: tree_at_def fnode_def)
  have body: "fixInsert_body h rt (Some z) = (ok (?h', rt, Some ga) :: (_, 's) result option)"
    using d by (simp add: fixInsert_body_def fld_at upd_at set_color_def f fnode_def)
  have t: "tree_at ?h' fs (wrap (Frame L ga gk gv True (Bin ul ua uk uv False ur))
         (wrap (Frame R pa pk pv False sib) (Bin zl z zk zv zc zr)))"
    using assms by (auto simp: tree_at_def fnode_def)
  have so: "same_outside (set (addrs (plug (Frame R pa pk pv True sib # Frame L ga gk gv gc (Bin ul ua uk uv True ur) # fs) (Bin zl z zk zv zc zr)))) h ?h'"
    by (auto simp: same_outside_def set_addrs_plug)
  from body t so show ?thesis by blast
qed

lemma fixInsert_body_recolor_RL:
  assumes "tree_at h (Frame L pa pk pv True sib # Frame R ga gk gv gc (Bin ul ua uk uv True ur) # fs) (Bin zl z zk zv zc zr)"
  shows "\<exists>h'. fixInsert_body h rt (Some z) = (ok (h', rt, Some ga) :: (_, 's) result option)
    \<and> tree_at h' fs (wrap (Frame R ga gk gv True (Bin ul ua uk uv False ur))
         (wrap (Frame L pa pk pv False sib) (Bin zl z zk zv zc zr)))
    \<and> same_outside (set (addrs (plug (Frame L pa pk pv True sib # Frame R ga gk gv gc (Bin ul ua uk uv True ur) # fs) (Bin zl z zk zv zc zr)))) h h'"
proof -
  let ?h' = "h(pa \<mapsto> fnode L pk pv (Some z) (ptr sib) (Some ga) False,
    ua \<mapsto> \<lparr>data_first = uk, data_second = uv, left = ptr ul, right = ptr ur,
      parent = Some ga, color = False\<rparr>,
    ga \<mapsto> fnode R gk gv (Some pa) (Some ua) (cpar None fs) True)"
  from assms have f: "h z = Some \<lparr>data_first = zk, data_second = zv, left = ptr zl, right = ptr zr,
        parent = Some pa, color = zc\<rparr>"
    "h pa = Some (fnode L pk pv (Some z) (ptr sib) (Some ga) True)"
    "h ga = Some (fnode R gk gv (Some pa) (Some ua) (cpar None fs) gc)"
    "h ua = Some \<lparr>data_first = uk, data_second = uv, left = ptr ul, right = ptr ur,
        parent = Some ga, color = True\<rparr>"
    and d: "z \<noteq> pa" "z \<noteq> ga" "z \<noteq> ua" "pa \<noteq> ga" "pa \<noteq> ua" "ga \<noteq> ua"
    by (auto simp: tree_at_def fnode_def)
  have body: "fixInsert_body h rt (Some z) = (ok (?h', rt, Some ga) :: (_, 's) result option)"
    using d by (simp add: fixInsert_body_def fld_at upd_at set_color_def f fnode_def)
  have t: "tree_at ?h' fs (wrap (Frame R ga gk gv True (Bin ul ua uk uv False ur))
         (wrap (Frame L pa pk pv False sib) (Bin zl z zk zv zc zr)))"
    using assms by (auto simp: tree_at_def fnode_def)
  have so: "same_outside (set (addrs (plug (Frame L pa pk pv True sib # Frame R ga gk gv gc (Bin ul ua uk uv True ur) # fs) (Bin zl z zk zv zc zr)))) h ?h'"
    by (auto simp: same_outside_def set_addrs_plug)
  from body t so show ?thesis by blast
qed

lemma fixInsert_body_recolor_RR:
  assumes "tree_at h (Frame R pa pk pv True sib # Frame R ga gk gv gc (Bin ul ua uk uv True ur) # fs) (Bin zl z zk zv zc zr)"
  shows "\<exists>h'. fixInsert_body h rt (Some z) = (ok (h', rt, Some ga) :: (_, 's) result option)
    \<and> tree_at h' fs (wrap (Frame R ga gk gv True (Bin ul ua uk uv False ur))
         (wrap (Frame R pa pk pv False sib) (Bin zl z zk zv zc zr)))
    \<and> same_outside (set (addrs (plug (Frame R pa pk pv True sib # Frame R ga gk gv gc (Bin ul ua uk uv True ur) # fs) (Bin zl z zk zv zc zr)))) h h'"
proof -
  let ?h' = "h(pa \<mapsto> fnode R pk pv (Some z) (ptr sib) (Some ga) False,
    ua \<mapsto> \<lparr>data_first = uk, data_second = uv, left = ptr ul, right = ptr ur,
      parent = Some ga, color = False\<rparr>,
    ga \<mapsto> fnode R gk gv (Some pa) (Some ua) (cpar None fs) True)"
  from assms have f: "h z = Some \<lparr>data_first = zk, data_second = zv, left = ptr zl, right = ptr zr,
        parent = Some pa, color = zc\<rparr>"
    "h pa = Some (fnode R pk pv (Some z) (ptr sib) (Some ga) True)"
    "h ga = Some (fnode R gk gv (Some pa) (Some ua) (cpar None fs) gc)"
    "h ua = Some \<lparr>data_first = uk, data_second = uv, left = ptr ul, right = ptr ur,
        parent = Some ga, color = True\<rparr>"
    and d: "z \<noteq> pa" "z \<noteq> ga" "z \<noteq> ua" "pa \<noteq> ga" "pa \<noteq> ua" "ga \<noteq> ua"
    by (auto simp: tree_at_def fnode_def)
  have body: "fixInsert_body h rt (Some z) = (ok (?h', rt, Some ga) :: (_, 's) result option)"
    using d by (simp add: fixInsert_body_def fld_at upd_at set_color_def f fnode_def)
  have t: "tree_at ?h' fs (wrap (Frame R ga gk gv True (Bin ul ua uk uv False ur))
         (wrap (Frame R pa pk pv False sib) (Bin zl z zk zv zc zr)))"
    using assms by (auto simp: tree_at_def fnode_def)
  have so: "same_outside (set (addrs (plug (Frame R pa pk pv True sib # Frame R ga gk gv gc (Bin ul ua uk uv True ur) # fs) (Bin zl z zk zv zc zr)))) h ?h'"
    by (auto simp: same_outside_def set_addrs_plug)
  from body t so show ?thesis by blast
qed

lemma addrs_paint [simp]: "addrs (paint c t) = addrs t"
  by (cases t) auto

lemma ptr_paint [simp]: "ptr (paint c t) = ptr t"
  by (cases t) auto

lemma entries_paint [simp]: "entries (paint c t) = entries t"
  by (cases t) auto

lemma ptr_plug_cong: "ptr t = ptr t' \<Longrightarrow> ptr (plug fs t) = ptr (plug fs t')"
  by (cases "fs = []") (simp_all add: ptr_plug)

lemma fixInsert_body_recolor:
  assumes "tree_at h (Frame dp pa pk pv True sib # Frame dg ga gk gv gc u # fs) s"
    and "s \<noteq> Tip" and "color_of u"
  shows "\<exists>h'. fixInsert_body h rt (ptr s) = (ok (h', rt, Some ga) :: (_, 's) result option)
    \<and> tree_at h' fs (wrap (Frame dg ga gk gv True (paint False u)) (wrap (Frame dp pa pk pv False sib) s))
    \<and> same_outside (set (addrs (plug (Frame dp pa pk pv True sib # Frame dg ga gk gv gc u # fs) s))) h h'"
proof -
  obtain zl z zk zv zc zr where s: "s = Bin zl z zk zv zc zr"
    using assms(2) by (cases s) auto
  obtain ul ua uk uv ur where u: "u = Bin ul ua uk uv True ur"
    using assms(3) by (cases u) auto
  show ?thesis
  proof (cases dg; cases dp)
    assume "dg = L" "dp = L"
    with assms(1) show ?thesis
      unfolding s u using fixInsert_body_recolor_LL [of h pa pk pv sib ga gk gv gc ul ua uk uv ur fs zl z zk zv zc zr rt]
      by simp
  next
    assume "dg = L" "dp = R"
    with assms(1) show ?thesis
      unfolding s u using fixInsert_body_recolor_LR [of h pa pk pv sib ga gk gv gc ul ua uk uv ur fs zl z zk zv zc zr rt]
      by simp
  next
    assume "dg = R" "dp = L"
    with assms(1) show ?thesis
      unfolding s u using fixInsert_body_recolor_RL [of h pa pk pv sib ga gk gv gc ul ua uk uv ur fs zl z zk zv zc zr rt]
      by simp
  next
    assume "dg = R" "dp = R"
    with assms(1) show ?thesis
      unfolding s u using fixInsert_body_recolor_RR [of h pa pk pv sib ga gk gv gc ul ua uk uv ur fs zl z zk zv zc zr rt]
      by simp
  qed
qed

lemma fixInsert_body_rotate:
  assumes "tree_at h (Frame dp pa pk pv True sib # Frame dg ga gk gv gc u # fs) s"
    and "s \<noteq> Tip" and "\<not> color_of u"
    and "ins_rot dg dp pa pk pv sib ga gk gv u s = (f, s')"
  shows "\<exists>h'. fixInsert_body h rt (ptr s) =
      (ok (h', if fs = [] then Some (faddr f) else rt, ptr s') :: (_, 's) result option)
    \<and> tree_at h' (f # fs) s' \<and> s' \<noteq> Tip \<and> \<not> fcolor f
    \<and> set (addrs (plug (f # fs) s')) = set (addrs (plug (Frame dp pa pk pv True sib # Frame dg ga gk gv gc u # fs) s))
    \<and> same_outside (set (addrs (plug (Frame dp pa pk pv True sib # Frame dg ga gk gv gc u # fs) s))) h h'"
proof -
  obtain zl z zk zv zc zr where s: "s = Bin zl z zk zv zc zr"
    using assms(2) by (cases s) auto
  show ?thesis
  proof (cases dg; cases dp)
    assume "dg = L" "dp = L"
    with assms(1,3,4) show ?thesis
      unfolding s using fixInsert_body_line_L [of h pa pk pv sib ga gk gv gc u fs zl z zk zv zc zr rt]
      by (auto simp: set_addrs_plug)
  next
    assume "dg = R" "dp = R"
    with assms(1,3,4) show ?thesis
      unfolding s using fixInsert_body_line_R [of h pa pk pv sib ga gk gv gc u fs zl z zk zv zc zr rt]
      by (auto simp: set_addrs_plug)
  next
    assume "dg = L" "dp = R"
    with assms(1,3,4) show ?thesis
      unfolding s using fixInsert_body_triangle_L [of h pa pk pv sib ga gk gv gc u fs z zk zv zc zr zl rt]
      by (auto simp: set_addrs_plug)
  next
    assume "dg = R" "dp = L"
    with assms(1,3,4) show ?thesis
      unfolding s using fixInsert_body_triangle_R [of h pa pk pv sib ga gk gv gc u fs z zk zv zc zl zr rt]
      by (auto simp: set_addrs_plug)
  qed
qed

lemma ptr_plug_neq:
  assumes "tree_at h fs s" "fs \<noteq> []" "s \<noteq> Tip"
  shows "ptr s \<noteq> ptr (plug fs s)"
proof -
  from assms(3) obtain a where a: "ptr s = Some a" by (cases s) auto
  then have "a \<in> set (addrs s)" by (rule ptr_in_addrs)
  moreover have "faddr (last fs) \<in> set (caddrs fs)" using assms(2) by (rule faddr_last_in)
  ultimately have "a \<noteq> faddr (last fs)"
    using assms(1) by (auto simp: tree_at_def)
  with a assms(2) show ?thesis by (simp add: ptr_plug)
qed

lemma fixInsert_step:
  assumes "tree_at h (Frame dp pa pk pv True sib # fs) s" "s \<noteq> Tip"
  shows "fixInsert h (ptr (plug (Frame dp pa pk pv True sib # fs) s)) (ptr s) =
    bnd (fixInsert_body h (ptr (plug (Frame dp pa pk pv True sib # fs) s)) (ptr s))
      (\<lambda>(h, rt, z). (fixInsert h rt z :: (_, 's) result option))"
proof -
  from assms obtain zl z zk zv zc zr where s: "s = Bin zl z zk zv zc zr" by (cases s) auto
  from assms(1) have "fld parent h (Some z) = (ok (Some pa) :: (_, 's) result option)"
    "fld color h (Some pa) = (ok True :: (_, 's) result option)"
    unfolding s by (cases dp; auto simp: tree_at_def fld_at)+
  moreover have "ptr s \<noteq> ptr (plug (Frame dp pa pk pv True sib # fs) s)"
    using assms by (intro ptr_plug_neq) auto
  ultimately show ?thesis
    unfolding s by (subst fixInsert.simps) simp
qed

lemma fixInsert_at:
  "tree_at h fs s \<Longrightarrow> s \<noteq> Tip \<Longrightarrow> (fs \<noteq> [] \<longrightarrow> \<not> fcolor (last fs)) \<Longrightarrow>
   \<exists>h'. fixInsert h (ptr (plug fs s)) (ptr s) = (ok (h', ptr (fix_ins fs s)) :: (_, 's) result option)
     \<and> tree_at h' [] (fix_ins fs s)
     \<and> same_outside (set (addrs (plug fs s))) h h'"
proof (induction fs s arbitrary: h rule: fix_ins.induct)
  case (1 s)
  from fixInsert_exit [OF 1(1,2)] show ?case by simp
next
  case (2 p s)
  from fixInsert_exit [OF 2(1,2)] 2(3) show ?case by simp
next
  case (3 dp pa pk pv pc sib dg ga gk gv gc u fs s)
  let ?p = "Frame dp pa pk pv pc sib"
  let ?g = "Frame dg ga gk gv gc u"
  let ?A = "set (addrs (plug (?p # ?g # fs) s))"
  show ?case
  proof (cases pc)
    case False
    with fixInsert_exit [OF 3(3,4)] show ?thesis by simp
  next
    case True
    then have pc: "pc = True" by simp
    from 3(3) have t: "tree_at h (Frame dp pa pk pv True sib # ?g # fs) s"
      by (simp add: pc)
    note step = fixInsert_step [OF t 3(4)]
    show ?thesis
    proof (cases "color_of u")
      case True
      let ?s1 = "wrap (Frame dg ga gk gv True (paint False u)) (wrap (Frame dp pa pk pv False sib) s)"
      from fixInsert_body_recolor [OF t 3(4) True] obtain h1 where
        b: "fixInsert_body h (ptr (plug (Frame dp pa pk pv True sib # ?g # fs) s)) (ptr s) =
          (ok (h1, ptr (plug (Frame dp pa pk pv True sib # ?g # fs) s), Some ga) :: (_, 's) result option)"
        and t1: "tree_at h1 fs ?s1"
        and so1: "same_outside (set (addrs (plug (Frame dp pa pk pv True sib # ?g # fs) s))) h h1"
        by blast
      have ne: "?s1 \<noteq> Tip" by (cases dg) auto
      have rb: "fs \<noteq> [] \<longrightarrow> \<not> fcolor (last fs)" using 3(5) by auto
      from "3.IH"(1) [OF _ True t1 ne rb] pc obtain h' where
        r: "fixInsert h1 (ptr (plug fs ?s1)) (ptr ?s1) = (ok (h', ptr (fix_ins fs ?s1)) :: (_, 's) result option)"
        and t': "tree_at h' [] (fix_ins fs ?s1)"
        and so': "same_outside (set (addrs (plug fs ?s1))) h1 h'"
        by auto
      have p1: "ptr (plug (Frame dp pa pk pv True sib # ?g # fs) s) = ptr (plug fs ?s1)"
        by (cases dg) (auto intro: ptr_plug_cong)
      have p2: "ptr ?s1 = Some ga" by simp
      have A: "set (addrs (plug fs ?s1)) = ?A"
        by (cases dg; cases dp) (auto simp: set_addrs_plug)
      have so: "same_outside ?A h h'"
        using so1 so' unfolding pc A by (rule same_outside_trans) auto
      let ?rt = "ptr (plug (Frame dp pa pk pv True sib # ?g # fs) s)"
      have "fixInsert h ?rt (ptr s) =
          bnd (fixInsert_body h ?rt (ptr s)) (\<lambda>(h, rt, z). (fixInsert h rt z :: (_, 's) result option))"
        by (rule step)
      also have "\<dots> = fixInsert h1 ?rt (Some ga)"
        by (simp only: b bnd_simps prod.case)
      also have "\<dots> = ok (h', ptr (fix_ins fs ?s1))"
        using r by (simp only: p1 p2)
      finally have "fixInsert h ?rt (ptr s) = (ok (h', ptr (fix_ins fs ?s1)) :: (_, 's) result option)" .
      with so t' True show ?thesis
        by (auto simp: pc)
    next
      case False
      obtain f s' where rot: "ins_rot dg dp pa pk pv sib ga gk gv u s = (f, s')"
        by (cases "ins_rot dg dp pa pk pv sib ga gk gv u s")
      let ?rt = "ptr (plug (Frame dp pa pk pv True sib # ?g # fs) s)"
      from fixInsert_body_rotate [OF t 3(4) False rot] obtain h1 where
        b: "fixInsert_body h ?rt (ptr s) =
          (ok (h1, if fs = [] then Some (faddr f) else ?rt, ptr s') :: (_, 's) result option)"
        and t1: "tree_at h1 (f # fs) s'" and ne: "s' \<noteq> Tip" and fb: "\<not> fcolor f"
        and A: "set (addrs (plug (f # fs) s')) = set (addrs (plug (Frame dp pa pk pv True sib # ?g # fs) s))"
        and so1: "same_outside (set (addrs (plug (Frame dp pa pk pv True sib # ?g # fs) s))) h h1"
        by blast
      have rb: "f # fs \<noteq> [] \<longrightarrow> \<not> fcolor (last (f # fs))" using 3(5) fb by auto
      from "3.IH"(2) [OF _ False rot [symmetric] t1 ne rb] pc obtain h' where
        r: "fixInsert h1 (ptr (plug (f # fs) s')) (ptr s') = (ok (h', ptr (fix_ins (f # fs) s')) :: (_, 's) result option)"
        and t': "tree_at h' [] (fix_ins (f # fs) s')"
        and so': "same_outside (set (addrs (plug (f # fs) s'))) h1 h'"
        by auto
      have p1: "(if fs = [] then Some (faddr f) else ?rt) = ptr (plug (f # fs) s')"
        by (simp add: ptr_plug)
      have so: "same_outside ?A h h'"
        using so1 so' unfolding pc A by (rule same_outside_trans) auto
      have "fixInsert h ?rt (ptr s) =
          bnd (fixInsert_body h ?rt (ptr s)) (\<lambda>(h, rt, z). (fixInsert h rt z :: (_, 's) result option))"
        by (rule step)
      also have "\<dots> = fixInsert h1 (ptr (plug (f # fs) s')) (ptr s')"
        by (simp only: b bnd_simps prod.case p1)
      also have "\<dots> = ok (h', ptr (fix_ins (f # fs) s'))"
        by (rule r)
      finally have "fixInsert h ?rt (ptr s) = (ok (h', ptr (fix_ins (f # fs) s')) :: (_, 's) result option)" .
      with so t' False rot show ?thesis
        by (auto simp: pc)
    qed
  qed
qed

subsection \<open>The fix-up restores the red-black conditions\<close>

lemma invh_plug: "invh (plug fs s) \<longleftrightarrow> invh s \<and> ctx_h (bheight s) fs"
proof (induction fs arbitrary: s)
  case Nil
  then show ?case by simp
next
  case (Cons f fs)
  obtain d a k v c u where f: "f = Frame d a k v c u" by (cases f)
  show ?case
    unfolding plug.simps Cons.IH f by (cases d) auto
qed

lemma color_of_wrap [simp]: "color_of (wrap f s) = fcolor f"
proof -
  obtain d a k v c u where "f = Frame d a k v c u" by (cases f)
  then show ?thesis by (cases d) auto
qed

lemma invc_plug:
  "invc (plug fs s) \<longleftrightarrow> invc s \<and> ctx_c fs \<and> (fs \<noteq> [] \<and> fcolor (hd fs) \<longrightarrow> \<not> color_of s)"
proof (induction fs arbitrary: s)
  case Nil
  then show ?case by simp
next
  case (Cons f fs)
  obtain d a k v c u where f: "f = Frame d a k v c u" by (cases f)
  show ?case
    unfolding plug.simps Cons.IH f by (cases d) auto
qed

lemma color_of_plug: "color_of (plug fs s) = (if fs = [] then color_of s else fcolor (last fs))"
  by (induction fs arbitrary: s) auto

lemma invh_paint [simp]: "invh (paint c t) = invh t"
  by (cases t) auto

lemma invc_paint_black: "invc t \<Longrightarrow> invc (paint False t)"
  by (cases t) auto

lemma color_of_paint: "t \<noteq> Tip \<Longrightarrow> color_of (paint c t) = c"
  by (cases t) auto

lemma rbt_paint: "invc t \<Longrightarrow> invh t \<Longrightarrow> rbt (paint False t)"
  by (cases t) (auto simp: rbt_def)

lemma fix_ins_rbt:
  "color_of s \<Longrightarrow> invc s \<Longrightarrow> invh s \<Longrightarrow> ctx_c fs \<Longrightarrow> ctx_h (bheight s) fs \<Longrightarrow>
   (fs \<noteq> [] \<longrightarrow> \<not> fcolor (last fs)) \<Longrightarrow> rbt (fix_ins fs s)"
proof (induction fs s rule: fix_ins.induct)
  case (1 s)
  then show ?case by (simp add: rbt_paint)
next
  case (2 p s)
  obtain d a k v c u where p: "p = Frame d a k v c u" by (cases p)
  with 2 show ?case by (cases d) (auto simp: rbt_def)
next
  case (3 dp pa pk pv pc sib dg ga gk gv gc u fs s)
  show ?case
  proof (cases pc)
    case False
    with 3(3-) have "invc (plug (Frame dp pa pk pv pc sib # Frame dg ga gk gv gc u # fs) s)"
      "invh (plug (Frame dp pa pk pv pc sib # Frame dg ga gk gv gc u # fs) s)"
      unfolding invc_plug invh_plug by auto
    with False show ?thesis by (simp add: rbt_paint)
  next
    case True
    note pc = this
    show ?thesis
    proof (cases "color_of u")
      case True
      then obtain ul ua uk uv ur where u: "u = Bin ul ua uk uv True ur" by (cases u) auto
      let ?s1 = "wrap (Frame dg ga gk gv True (paint False u)) (wrap (Frame dp pa pk pv False sib) s)"
      have "rbt (fix_ins fs ?s1)"
      proof (rule "3.IH"(1) [OF _ True])
        show "\<not> \<not> pc" using pc by simp
        show "color_of ?s1" by simp
        show "invc ?s1"
          using pc 3(3-) unfolding u by (cases dg; cases dp) auto
        show "invh ?s1"
          using pc 3(3-) unfolding u by (cases dg; cases dp) auto
        show "ctx_c fs"
          using 3(6) by simp
        show "ctx_h (bheight ?s1) fs"
          using pc 3(3-) unfolding u by (cases dg; cases dp) auto
        show "fs \<noteq> [] \<longrightarrow> \<not> fcolor (last fs)"
          using 3(8) by auto
      qed
      with pc True show ?thesis by simp
    next
      case False
      obtain f s' where rot: "ins_rot dg dp pa pk pv sib ga gk gv u s = (f, s')"
        by (cases "ins_rot dg dp pa pk pv sib ga gk gv u s")
      have "rbt (fix_ins (f # fs) s')"
      proof (rule "3.IH"(2) [OF _ False rot [symmetric]])
        show "\<not> \<not> pc" using pc by simp
        show "color_of s'"
          using pc False rot 3(3-) by (cases dg; cases dp; cases s) auto
        show "invc s'"
          using pc False rot 3(3-) by (cases dg; cases dp; cases s) auto
        show "invh s'"
          using pc False rot 3(3-) by (cases dg; cases dp; cases s) auto
        show "ctx_c (f # fs)"
          using pc False rot 3(3-) by (cases dg; cases dp; cases s) auto
        show "ctx_h (bheight s') (f # fs)"
          using pc False rot 3(3-) by (cases dg; cases dp; cases s) auto
        show "f # fs \<noteq> [] \<longrightarrow> \<not> fcolor (last (f # fs))"
          using pc False rot 3(3,8) by (cases dg; cases dp; cases s) auto
      qed
      with pc False rot show ?thesis by simp
    qed
  qed
qed

lemma entries_plug_cong: "entries s = entries s' \<Longrightarrow> entries (plug fs s) = entries (plug fs s')"
proof (induction fs arbitrary: s s')
  case Nil
  then show ?case by simp
next
  case (Cons f fs)
  obtain d a k v c u where f: "f = Frame d a k v c u" by (cases f)
  from Cons.prems show ?case
    unfolding plug.simps f by (cases d) (auto intro!: Cons.IH)
qed

lemma addrs_plug_cong: "addrs s = addrs s' \<Longrightarrow> addrs (plug fs s) = addrs (plug fs s')"
proof (induction fs arbitrary: s s')
  case Nil
  then show ?case by simp
next
  case (Cons f fs)
  obtain d a k v c u where f: "f = Frame d a k v c u" by (cases f)
  from Cons.prems show ?case
    unfolding plug.simps f by (cases d) (auto intro!: Cons.IH)
qed

lemma addrs_fix_ins: "s \<noteq> Tip \<Longrightarrow> addrs (fix_ins fs s) = addrs (plug fs s)"
proof (induction fs s rule: fix_ins.induct)
  case (1 s)
  then show ?case by simp
next
  case (2 p s)
  then show ?case by simp
next
  case (3 dp pa pk pv pc sib dg ga gk gv gc u fs s)
  show ?case
  proof (cases "\<not> pc \<or> color_of u")
    case True
    with 3 show ?thesis
      by (cases dg; cases dp) (auto intro!: addrs_plug_cong)
  next
    case False
    obtain f s' where rot: "ins_rot dg dp pa pk pv sib ga gk gv u s = (f, s')"
      by (cases "ins_rot dg dp pa pk pv sib ga gk gv u s")
    from False rot 3(3) have ne: "s' \<noteq> Tip"
      by (cases dg; cases dp; cases s) auto
    from False rot 3(3) have "addrs (wrap f s') =
        addrs (wrap (Frame dg ga gk gv gc u) (wrap (Frame dp pa pk pv pc sib) s))"
      by (cases dg; cases dp; cases s) auto
    then have "addrs (plug fs (wrap f s')) =
        addrs (plug fs (wrap (Frame dg ga gk gv gc u) (wrap (Frame dp pa pk pv pc sib) s)))"
      by (rule addrs_plug_cong)
    with False rot "3.IH"(2) [OF _ _ rot [symmetric] ne] show ?thesis by simp
  qed
qed

subsection \<open>Insertion keeps the order\<close>

lemma entries_plug: "entries (plug fs s) = cbefore fs @ entries s @ cafter fs"
proof (induction fs arbitrary: s)
  case Nil
  then show ?case by simp
next
  case (Cons f fs)
  obtain d a k v c u where f: "f = Frame d a k v c u" by (cases f)
  show ?case
    unfolding plug.simps Cons.IH f by (cases d) auto
qed

lemma length_addrs_plug: "length (addrs (plug fs s)) = length (addrs s) + length (caddrs fs)"
proof (induction fs arbitrary: s)
  case Nil
  then show ?case by simp
next
  case (Cons f fs)
  obtain d a k v c u where f: "f = Frame d a k v c u" by (cases f)
  show ?case
    unfolding plug.simps Cons.IH f by (cases d) auto
qed

lemma path_ok_Cons:
  "path_ok cmp k (Frame d a kb vb c u # fs) \<longleftrightarrow>
     (if d = L then cmp k kb else \<not> cmp k kb \<and> cmp kb k) \<and> path_ok cmp k fs"
  by (simp add: path_ok_def)

lemma locate_path:
  "locate cmp k t fs0 = (fs, s) \<Longrightarrow> path_ok cmp k fs0 \<Longrightarrow> path_ok cmp k fs"
proof (induction t arbitrary: fs0)
  case Tip
  then show ?case by simp
next
  case (Bin l a kb vb c r)
  consider (lt) "cmp k kb" | (gt) "\<not> cmp k kb" "cmp kb k" | (eq) "\<not> cmp k kb" "\<not> cmp kb k"
    by blast
  then show ?case
  proof cases
    case lt
    with Bin.prems have "locate cmp k l (Frame L a kb vb c r # fs0) = (fs, s)"
      "path_ok cmp k (Frame L a kb vb c r # fs0)"
      by (simp_all add: path_ok_Cons)
    then show ?thesis by (rule Bin.IH(1))
  next
    case gt
    with Bin.prems have "locate cmp k r (Frame R a kb vb c l # fs0) = (fs, s)"
      "path_ok cmp k (Frame R a kb vb c l # fs0)"
      by (simp_all add: path_ok_Cons)
    then show ?thesis by (rule Bin.IH(2))
  next
    case eq
    with Bin.prems show ?thesis by simp
  qed
qed

lemma locate_bounds:
  assumes tr: "\<And>a b c. cmp a b \<Longrightarrow> cmp b c \<Longrightarrow> cmp a c"
  shows "bst cmp t \<Longrightarrow> locate cmp k t fs0 = (fs, Tip) \<Longrightarrow>
    (\<forall>e \<in> set (cbefore fs0). cmp (fst e) k) \<Longrightarrow> (\<forall>e \<in> set (cafter fs0). cmp k (fst e)) \<Longrightarrow>
    (\<forall>e \<in> set (cbefore fs). cmp (fst e) k) \<and> (\<forall>e \<in> set (cafter fs). cmp k (fst e))"
proof (induction t arbitrary: fs0)
  case Tip
  then show ?case by simp
next
  case (Bin l a kb vb c r)
  consider (lt) "cmp k kb" | (gt) "\<not> cmp k kb" "cmp kb k" | (eq) "\<not> cmp k kb" "\<not> cmp kb k"
    by blast
  then show ?case
  proof cases
    case lt
    with Bin.prems have loc: "locate cmp k l (Frame L a kb vb c r # fs0) = (fs, Tip)" by simp
    have "cmp k (fst e)" if "e \<in> set (entries r)" for e
    proof -
      from Bin.prems(1) that have "cmp kb (fst e)" by simp
      with lt show ?thesis by (rule tr)
    qed
    with lt Bin.prems(4) have "\<forall>e \<in> set (cafter (Frame L a kb vb c r # fs0)). cmp k (fst e)"
      by auto
    with Bin.IH(1) [OF _ loc] Bin.prems show ?thesis by simp
  next
    case gt
    with Bin.prems have loc: "locate cmp k r (Frame R a kb vb c l # fs0) = (fs, Tip)" by simp
    have "cmp (fst e) k" if "e \<in> set (entries l)" for e
    proof -
      from Bin.prems(1) that have "cmp (fst e) kb" by simp
      then show ?thesis using gt(2) by (rule tr)
    qed
    with gt Bin.prems(3) have "\<forall>e \<in> set (cbefore (Frame R a kb vb c l # fs0)). cmp (fst e) k"
      by auto
    with Bin.IH(2) [OF _ loc] Bin.prems show ?thesis by simp
  next
    case eq
    with Bin.prems show ?thesis by simp
  qed
qed

lemma bst_sorted:
  assumes tr: "\<And>a b c. cmp a b \<Longrightarrow> cmp b c \<Longrightarrow> cmp a c"
  shows "bst cmp t \<Longrightarrow> sorted_wrt cmp (map fst (entries t))"
proof (induction t)
  case Tip
  then show ?case by simp
next
  case (Bin l a k v c r)
  from Bin.prems have 1: "\<forall>e \<in> set (entries l). cmp (fst e) k"
    and 2: "\<forall>e \<in> set (entries r). cmp k (fst e)"
    by simp_all
  have 3: "cmp (fst x) (fst y)" if "x \<in> set (entries l)" "y \<in> set (entries r)" for x y
  proof -
    from 1 that have "cmp (fst x) k" by simp
    moreover from 2 that have "cmp k (fst y)" by simp
    ultimately show ?thesis by (rule tr)
  qed
  from Bin 1 2 3 show ?case
    by (auto simp: sorted_wrt_append)
qed

lemma sorted_bst: "sorted_wrt cmp (map fst (entries t)) \<Longrightarrow> bst cmp t"
  by (induction t) (auto simp: sorted_wrt_append)

lemma bst_insert_at:
  assumes tr: "\<And>a b c. cmp a b \<Longrightarrow> cmp b c \<Longrightarrow> cmp a c"
    and "bst cmp t" "locate cmp k t [] = (fs, Tip)" "entries t' = entries (plug fs (Bin Tip a k v c Tip))"
  shows "bst cmp t'"
proof -
  from plug_locate [OF assms(3)] have t: "t = plug fs Tip" by simp
  from locate_bounds [OF tr assms(2,3)] have b: "\<forall>e \<in> set (cbefore fs). cmp (fst e) k"
    "\<forall>e \<in> set (cafter fs). cmp k (fst e)"
    by simp_all
  from bst_sorted [OF tr assms(2)] have "sorted_wrt cmp (map fst (cbefore fs @ cafter fs))"
    by (simp add: t entries_plug)
  with b have "sorted_wrt cmp (map fst (cbefore fs @ (k, v) # cafter fs))"
    by (auto simp: sorted_wrt_append)
  then show ?thesis
    by (intro sorted_bst) (simp add: assms(4) entries_plug)
qed

subsection \<open>\<^verbatim>\<open>insert\<close> on a map object\<close>

lemma attach_at:
  assumes "tree_at h fs Tip" "nx \<notin> set (caddrs fs)" "path_ok cmp k fs"
    and "rt = ptr (plug fs Tip)"
  shows "\<exists>h1. (case new_Node h nx (k, v) (cpar None fs) of (h, nx', newNode) \<Rightarrow>
      bnd (if cpar None fs = None then ok (h, newNode)
           else bnd (fld data_first h (cpar None fs)) (\<lambda>pk.
                if cmp (fst (k, v)) pk then bnd (set_left h (cpar None fs) newNode) (\<lambda>h. ok (h, rt))
                else bnd (set_right h (cpar None fs) newNode) (\<lambda>h. ok (h, rt))))
        (\<lambda>(h, rt). (G h rt newNode nx' :: ('a, 's) result option)))
      = G h1 (ptr (plug fs (Bin Tip nx k v True Tip))) (Some nx) (Suc nx)
    \<and> tree_at h1 fs (Bin Tip nx k v True Tip)
    \<and> same_outside (insert nx (set (caddrs fs))) h h1"
proof (cases fs)
  case Nil
  with assms(1-3) show ?thesis
    by (auto simp: new_Node_def tree_at_def same_outside_def)
next
  case (Cons f fs')
  obtain d pa pk pv pc sib where f: "f = Frame d pa pk pv pc sib" by (cases f)
  let ?h1 = "h(nx \<mapsto> \<lparr>data_first = k, data_second = v, left = None, right = None,
        parent = Some pa, color = True\<rparr>,
      pa \<mapsto> fnode d pk pv (Some nx) (ptr sib) (cpar None fs') pc)"
  from assms have hp: "h pa = Some (fnode d pk pv None (ptr sib) (cpar None fs') pc)"
    and ne: "nx \<noteq> pa"
    and dir: "d = L \<longleftrightarrow> cmp k pk"
    unfolding Cons f by (auto simp: tree_at_def fnode_def path_ok_Cons split: if_splits)
  have p: "ptr (plug fs (Bin Tip nx k v True Tip)) = rt"
    unfolding Cons assms(4) by (simp add: ptr_plug del: plug.simps)
  have "tree_at ?h1 fs (Bin Tip nx k v True Tip)"
    using assms unfolding Cons f by (cases d) (auto simp: tree_at_def fnode_def)
  moreover have "same_outside (insert nx (set (caddrs fs))) h ?h1"
    unfolding Cons f by (auto simp: same_outside_def)
  moreover have "(case new_Node h nx (k, v) (cpar None fs) of (h, nx', newNode) \<Rightarrow>
      bnd (if cpar None fs = None then ok (h, newNode)
           else bnd (fld data_first h (cpar None fs)) (\<lambda>pk.
                if cmp (fst (k, v)) pk then bnd (set_left h (cpar None fs) newNode) (\<lambda>h. ok (h, rt))
                else bnd (set_right h (cpar None fs) newNode) (\<lambda>h. ok (h, rt))))
        (\<lambda>(h, rt). (G h rt newNode nx' :: ('a, 's) result option)))
      = G ?h1 (ptr (plug fs (Bin Tip nx k v True Tip))) (Some nx) (Suc nx)"
    unfolding p using ne hp dir unfolding Cons f
    by (cases d) (simp_all add: new_Node_def fld_at upd_at set_left_def set_right_def fnode_def)
  ultimately show ?thesis by blast
qed

lemma tree_at_whole: "tree_at h [] t \<longleftrightarrow> heap_tree h None t \<and> distinct (addrs t)"
  by (simp add: tree_at_def)

lemma map_insert_new:
  assumes "map_shape w this t" and "rbt t" and "locate cmp k t [] = (fs, Tip)"
    and "fresh w \<notin> set (addrs t)"
  shows "\<exists>w'. map_insert cmp w this (k, v) =
        ok (w', \<lparr>node = Some (fresh w), container = Some this\<rparr>, True)
    \<and> map_shape w' this (fix_ins fs (Bin Tip (fresh w) k v True Tip))
    \<and> fresh w' = Suc (fresh w)
    \<and> same_outside (insert (fresh w) (set (addrs t))) (nodes w) (nodes w')
    \<and> (\<forall>c. c \<noteq> this \<longrightarrow> maps w' c = maps w c)"
proof -
  let ?nx = "fresh w"
  let ?s = "Bin Tip ?nx k v True Tip"
  let ?m = "\<lparr>root = ptr t, tree_size = length (addrs t)\<rparr>"
  from plug_locate [OF assms(3)] have t: "t = plug fs Tip" by simp
  from assms(1) have m: "maps w this = Some ?m"
    and ht: "heap_tree (nodes w) None t" and dt: "distinct (addrs t)"
    by (simp_all add: map_shape_def)
  from ht dt have at: "tree_at (nodes w) fs Tip"
    by (simp add: tree_at_plug t)
  from assms(4) have nx: "?nx \<notin> set (caddrs fs)"
    by (simp add: t set_addrs_plug)
  have po: "path_ok cmp k fs"
    using assms(3) by (rule locate_path) (simp add: path_ok_def)
  have rb: "fs \<noteq> [] \<longrightarrow> \<not> fcolor (last fs)"
    using assms(2) by (auto simp: rbt_def t color_of_plug)
  define G :: "('a, 'b) heap \<Rightarrow> addr option \<Rightarrow> addr option \<Rightarrow> addr
      \<Rightarrow> (('a, 'b) world \<times> iterator \<times> bool, ('a, 'b) world) result option"
    where "G = (\<lambda>h rt newNode nx'. bnd (fixInsert h rt newNode) (\<lambda>(h, rt).
       ok (w\<lparr>nodes := h, fresh := nx',
              maps := (maps w)(this \<mapsto> \<lparr>root = rt, tree_size = tree_size ?m + 1\<rparr>)\<rparr>,
           \<lparr>node = newNode, container = Some this\<rparr>, True)))"
  have 1: "map_insert cmp w this (k, v) =
    (case new_Node (nodes w) ?nx (k, v) (cpar None fs) of (h, nx', newNode) \<Rightarrow>
      bnd (if cpar None fs = None then ok (h, newNode)
           else bnd (fld data_first h (cpar None fs)) (\<lambda>pk.
                if cmp (fst (k, v)) pk then bnd (set_left h (cpar None fs) newNode) (\<lambda>h. ok (h, root ?m))
                else bnd (set_right h (cpar None fs) newNode) (\<lambda>h. ok (h, root ?m))))
        (\<lambda>(h, rt). G h rt newNode nx'))"
    using assms(3)
    by (simp add: map_insert_def obj_def m insert_search_root [OF ht] G_def t [symmetric] new_Node_def)
  have rm: "root ?m = ptr (plug fs Tip)" by (simp add: t)
  from attach_at [OF at nx po rm, of v G] obtain h1 where
    2: "(case new_Node (nodes w) ?nx (k, v) (cpar None fs) of (h, nx', newNode) \<Rightarrow>
      bnd (if cpar None fs = None then ok (h, newNode)
           else bnd (fld data_first h (cpar None fs)) (\<lambda>pk.
                if cmp (fst (k, v)) pk then bnd (set_left h (cpar None fs) newNode) (\<lambda>h. ok (h, root ?m))
                else bnd (set_right h (cpar None fs) newNode) (\<lambda>h. ok (h, root ?m))))
        (\<lambda>(h, rt). G h rt newNode nx'))
      = G h1 (ptr (plug fs ?s)) (Some ?nx) (Suc ?nx)"
    and at1: "tree_at h1 fs ?s"
    and so1: "same_outside (insert ?nx (set (caddrs fs))) (nodes w) h1"
    by blast
  from fixInsert_at [OF at1 _ rb] obtain h' where
    3: "fixInsert h1 (ptr (plug fs ?s)) (ptr ?s) =
        (ok (h', ptr (fix_ins fs ?s)) :: (_, ('a, 'b) world) result option)"
    and at': "tree_at h' [] (fix_ins fs ?s)"
    and so': "same_outside (set (addrs (plug fs ?s))) h1 h'"
    by auto
  let ?w' = "w\<lparr>nodes := h', fresh := Suc ?nx,
      maps := (maps w)(this \<mapsto> \<lparr>root = ptr (fix_ins fs ?s), tree_size = length (addrs t) + 1\<rparr>)\<rparr>"
  have "map_insert cmp w this (k, v) = ok (?w', \<lparr>node = Some ?nx, container = Some this\<rparr>, True)"
    unfolding 1 2 using 3 by (simp add: G_def)
  moreover have "map_shape ?w' this (fix_ins fs ?s)"
    using at' by (simp add: map_shape_def tree_at_whole addrs_fix_ins length_addrs_plug t)
  moreover have "same_outside (insert ?nx (set (addrs t))) (nodes w) (nodes ?w')"
    using so1 so' by (simp, rule same_outside_trans) (auto simp: t set_addrs_plug)
  ultimately show ?thesis by auto
qed

lemma addrs_assoc: "addrs t = map fst (assoc t)"
  by (induction t) auto

lemma entries_assoc: "entries t = map snd (assoc t)"
  by (induction t) auto

lemma assoc_paint [simp]: "assoc (paint c t) = assoc t"
  by (cases t) auto

lemma assoc_plug_cong: "assoc s = assoc s' \<Longrightarrow> assoc (plug fs s) = assoc (plug fs s')"
proof (induction fs arbitrary: s s')
  case Nil
  then show ?case by simp
next
  case (Cons f fs)
  obtain d a k v c u where f: "f = Frame d a k v c u" by (cases f)
  from Cons.prems show ?case
    unfolding plug.simps f by (cases d) (auto intro!: Cons.IH)
qed

lemma assoc_fix_ins: "s \<noteq> Tip \<Longrightarrow> assoc (fix_ins fs s) = assoc (plug fs s)"
proof (induction fs s rule: fix_ins.induct)
  case (1 s)
  then show ?case by simp
next
  case (2 p s)
  then show ?case by simp
next
  case (3 dp pa pk pv pc sib dg ga gk gv gc u fs s)
  show ?case
  proof (cases "\<not> pc \<or> color_of u")
    case True
    with 3 show ?thesis
      by (cases dg; cases dp) (auto intro!: assoc_plug_cong)
  next
    case False
    obtain f s' where rot: "ins_rot dg dp pa pk pv sib ga gk gv u s = (f, s')"
      by (cases "ins_rot dg dp pa pk pv sib ga gk gv u s")
    from False rot 3(3) have ne: "s' \<noteq> Tip"
      by (cases dg; cases dp; cases s) auto
    from False rot 3(3) have "assoc (wrap f s') =
        assoc (wrap (Frame dg ga gk gv gc u) (wrap (Frame dp pa pk pv pc sib) s))"
      by (cases dg; cases dp; cases s) auto
    then have "assoc (plug fs (wrap f s')) =
        assoc (plug fs (wrap (Frame dg ga gk gv gc u) (wrap (Frame dp pa pk pv pc sib) s)))"
      by (rule assoc_plug_cong)
    with False rot "3.IH"(2) [OF _ _ rot [symmetric] ne] show ?thesis by simp
  qed
qed

lemma set_assoc_plug: "set (assoc (plug fs s)) = set (assoc s) \<union> set (assoc (plug fs Tip))"
proof (induction fs arbitrary: s)
  case Nil
  then show ?case by simp
next
  case (Cons f fs)
  obtain d a k v c u where f: "f = Frame d a k v c u" by (cases f)
  show ?case
    unfolding plug.simps f
    by (cases d) (use Cons.IH [of "wrap (Frame d a k v c u) s"]
        Cons.IH [of "wrap (Frame d a k v c u) Tip"] in auto)
qed

lemma heap_tree_assoc:
  "heap_tree h par t \<Longrightarrow> (a, k, v) \<in> set (assoc t) \<Longrightarrow>
   \<exists>n. h a = Some n \<and> data_first n = k \<and> data_second n = v"
  by (induction t arbitrary: par) auto

lemma swo_trans: "strict_weak_order cmp \<Longrightarrow> cmp a b \<Longrightarrow> cmp b c \<Longrightarrow> cmp a c"
  unfolding strict_weak_order_def by blast

lemma swo_irrefl: "strict_weak_order cmp \<Longrightarrow> \<not> cmp a a"
  unfolding strict_weak_order_def by blast

lemma map_insert_absent:
  assumes swo: "strict_weak_order cmp" and inv: "map_inv cmp w this t"
    and absent: "\<forall>e \<in> set (entries t). \<not> equiv_keys cmp k (fst e)"
  shows "\<exists>w' t'. map_insert cmp w this (k, v) =
        ok (w', \<lparr>node = Some (fresh w), container = Some this\<rparr>, True)
    \<and> map_inv cmp w' this t'
    \<and> set (assoc t') = insert (fresh w, k, v) (set (assoc t))
    \<and> length (addrs t') = Suc (length (addrs t))
    \<and> fresh w' = Suc (fresh w)
    \<and> same_outside (insert (fresh w) (set (addrs t))) (nodes w) (nodes w')
    \<and> (\<forall>c. c \<noteq> this \<longrightarrow> maps w' c = maps w c)"
proof -
  let ?s = "Bin Tip (fresh w) k v True Tip"
  from inv have sh: "map_shape w this t" and b: "bst cmp t" and r: "rbt t"
    and al: "\<forall>a \<in> set (addrs t). a < fresh w"
    by (simp_all add: map_inv_def)
  obtain fs where loc: "locate cmp k t [] = (fs, Tip)"
    using locate_absent [OF absent, of "[]"] by (cases "locate cmp k t []") auto
  from plug_locate [OF loc] have t: "t = plug fs Tip" by simp
  from al have fr: "fresh w \<notin> set (addrs t)" by auto
  from map_insert_new [OF sh r loc fr, of v] obtain w' where
    ins: "map_insert cmp w this (k, v) = ok (w', \<lparr>node = Some (fresh w), container = Some this\<rparr>, True)"
    and sh': "map_shape w' this (fix_ins fs ?s)"
    and fr': "fresh w' = Suc (fresh w)"
    and so: "same_outside (insert (fresh w) (set (addrs t))) (nodes w) (nodes w')"
    and ms: "\<forall>c. c \<noteq> this \<longrightarrow> maps w' c = maps w c"
    by blast
  have as: "assoc (fix_ins fs ?s) = assoc (plug fs ?s)"
    by (rule assoc_fix_ins) simp
  then have en: "entries (fix_ins fs ?s) = entries (plug fs ?s)"
    and ad: "addrs (fix_ins fs ?s) = addrs (plug fs ?s)"
    by (simp_all add: entries_assoc addrs_assoc)
  have b': "bst cmp (fix_ins fs ?s)"
    using swo_trans [OF swo] b loc en by (rule bst_insert_at)
  from r have "invc (plug fs Tip)" "invh (plug fs Tip)" "\<not> color_of (plug fs Tip)"
    by (simp_all add: rbt_def t)
  then have r': "rbt (fix_ins fs ?s)"
    by (intro fix_ins_rbt) (auto simp: invc_plug invh_plug color_of_plug)
  have sa: "set (assoc (fix_ins fs ?s)) = insert (fresh w, k, v) (set (assoc t))"
    unfolding as t using set_assoc_plug [of fs ?s] by simp
  have al': "\<forall>a \<in> set (addrs (fix_ins fs ?s)). a < fresh w'"
    using al fr' sa by (auto simp: addrs_assoc)
  have "length (addrs (fix_ins fs ?s)) = Suc (length (addrs t))"
    by (simp add: ad t length_addrs_plug)
  with ins sh' b' r' al' sa fr' so ms show ?thesis
    unfolding map_inv_def by blast
qed

lemma map_insert_present:
  assumes "strict_weak_order cmp" and "map_shape w this t" and "bst cmp t"
    and "(k', v') \<in> set (entries t)" and "equiv_keys cmp k k'"
  shows "\<exists>a. map_insert cmp w this (k, v) = ok (w, \<lparr>node = Some a, container = Some this\<rparr>, False)
    \<and> (a, k', v') \<in> set (assoc t)"
proof -
  from locate_present [OF assms(1,3,4,5), of "[]"] obtain l a c r fs'
    where loc: "locate cmp k t [] = (fs', Bin l a k' v' c r)"
    by (metis prod.collapse)
  from assms(2) have h: "heap_tree (nodes w) None t"
    and m: "maps w this = Some \<lparr>root = ptr t, tree_size = length (addrs t)\<rparr>"
    by (simp_all add: map_shape_def)
  have ins: "map_insert cmp w this (k, v) = ok (w, \<lparr>node = Some a, container = Some this\<rparr>, False)"
    using m loc by (simp add: map_insert_def obj_def insert_search_root [OF h])
  have "(a, k', v') \<in> set (assoc (plug fs' (Bin l a k' v' c r)))"
    using set_assoc_plug [of fs' "Bin l a k' v' c r"] by simp
  with ins plug_locate [OF loc] show ?thesis by auto
qed

lemma map_at_shape:
  assumes "map_shape w this t"
  shows "map_at cmp w this k =
    (case snd (locate cmp k t []) of Tip \<Rightarrow> Some (Raise index_out_of_bound w)
     | Bin l a k' v' c r \<Rightarrow> ok v')"
proof -
  from assms have h: "heap_tree (nodes w) None t"
    and m: "maps w this = Some \<lparr>root = ptr t, tree_size = length (addrs t)\<rparr>"
    by (simp_all add: map_shape_def)
  obtain fs s where loc: "locate cmp k t [] = (fs, s)"
    by (cases "locate cmp k t []")
  from h plug_locate [OF loc] have hp: "heap_tree (nodes w) None (plug fs s)" by simp
  show ?thesis
  proof (cases s)
    case Tip
    with m loc show ?thesis
      by (simp add: map_at_def obj_def findNode_def findNode_locate [OF h, of cmp k "[]"])
  next
    case (Bin l a k' v' c r)
    with hp have "\<exists>n. nodes w a = Some n \<and> data_second n = v'"
      unfolding heap_tree_plug by simp
    with Bin m loc show ?thesis
      by (auto simp: map_at_def obj_def findNode_def findNode_locate [OF h, of cmp k "[]"] fld_at)
  qed
qed

lemma map_at_absent:
  assumes "map_shape w this t" and "\<forall>e \<in> set (entries t). \<not> equiv_keys cmp k (fst e)"
  shows "map_at cmp w this k = Some (Raise index_out_of_bound w)"
  by (simp add: map_at_shape [OF assms(1)] locate_absent [OF assms(2)])

lemma map_at_present:
  assumes "strict_weak_order cmp" and "map_shape w this t" and "bst cmp t"
    and "(k', v') \<in> set (entries t)" and "equiv_keys cmp k k'"
  shows "map_at cmp w this k = ok v'"
proof -
  from locate_present [OF assms(1,3,4,5), of "[]"] obtain l a c r
    where "snd (locate cmp k t []) = Bin l a k' v' c r" by blast
  then show ?thesis by (simp add: map_at_shape [OF assms(2)])
qed

lemma map_insert_inv:
  assumes swo: "strict_weak_order cmp" and inv: "map_inv cmp w this t"
  shows "\<exists>w' it b t'. map_insert cmp w this (k, v) = ok (w', it, b)
    \<and> map_inv cmp w' this t'
    \<and> set (entries t') \<subseteq> insert (k, v) (set (entries t))
    \<and> set (entries t) \<subseteq> set (entries t')
    \<and> (\<exists>e \<in> set (entries t'). equiv_keys cmp k (fst e))"
proof (cases "\<exists>e \<in> set (entries t). equiv_keys cmp k (fst e)")
  case True
  then obtain k' v' where e: "(k', v') \<in> set (entries t)" "equiv_keys cmp k k'" by auto
  from inv have "map_shape w this t" "bst cmp t" by (simp_all add: map_inv_def)
  from map_insert_present [OF swo this e, of v] obtain a where
    "map_insert cmp w this (k, v) = ok (w, \<lparr>node = Some a, container = Some this\<rparr>, False)"
    by blast
  moreover have "set (entries t) \<subseteq> insert (k, v) (set (entries t))" by auto
  moreover have "set (entries t) \<subseteq> set (entries t)" by simp
  ultimately show ?thesis using inv True by blast
next
  case False
  then have ab: "\<forall>e \<in> set (entries t). \<not> equiv_keys cmp k (fst e)" by simp
  from map_insert_absent [OF swo inv ab, of v] obtain w' t' where
    1: "map_insert cmp w this (k, v) =
        ok (w', \<lparr>node = Some (fresh w), container = Some this\<rparr>, True)"
    and 2: "map_inv cmp w' this t'"
    and 3: "set (assoc t') = insert (fresh w, k, v) (set (assoc t))"
    by blast
  from 3 have 4: "set (entries t') = insert (k, v) (set (entries t))"
    unfolding entries_assoc set_map by simp
  have "equiv_keys cmp k k"
    using swo_irrefl [OF swo] by (simp add: equiv_keys_def)
  with 4 have 5: "\<exists>e \<in> set (entries t'). equiv_keys cmp k (fst e)" by auto
  from 4 have 6: "set (entries t') \<subseteq> insert (k, v) (set (entries t))"
    and 7: "set (entries t) \<subseteq> set (entries t')" by auto
  from 1 2 5 6 7 show ?thesis by blast
qed

lemma insert_all_inv:
  assumes swo: "strict_weak_order cmp"
  shows "map_inv cmp w this t \<Longrightarrow>
    \<exists>w' t'. insert_all cmp w this kvs = ok w' \<and> map_inv cmp w' this t'
      \<and> set (entries t') \<subseteq> set (entries t) \<union> set kvs
      \<and> set (entries t) \<subseteq> set (entries t')
      \<and> (\<forall>kv \<in> set kvs. \<exists>e \<in> set (entries t'). equiv_keys cmp (fst kv) (fst e))"
proof (induction kvs arbitrary: w t)
  case Nil
  then show ?case by auto
next
  case (Cons kv kvs)
  obtain k v where kv: "kv = (k, v)" by (cases kv)
  from map_insert_inv [OF swo Cons.prems, of k v] obtain w1 it b t1 where
    1: "map_insert cmp w this (k, v) = ok (w1, it, b)"
    and 2: "map_inv cmp w1 this t1"
    and 3: "set (entries t1) \<subseteq> insert (k, v) (set (entries t))"
    and 4: "set (entries t) \<subseteq> set (entries t1)"
    and 5: "\<exists>e \<in> set (entries t1). equiv_keys cmp k (fst e)"
    by blast
  from Cons.IH [OF 2] obtain w' t' where
    6: "insert_all cmp w1 this kvs = ok w'" and 7: "map_inv cmp w' this t'"
    and 8: "set (entries t') \<subseteq> set (entries t1) \<union> set kvs"
    and 9: "set (entries t1) \<subseteq> set (entries t')"
    and 10: "\<forall>kv \<in> set kvs. \<exists>e \<in> set (entries t'). equiv_keys cmp (fst kv) (fst e)"
    by blast
  have "insert_all cmp w this (kv # kvs) = ok w'"
    by (simp add: kv 1 6)
  moreover from 3 8 have "set (entries t') \<subseteq> set (entries t) \<union> set (kv # kvs)"
    by (auto simp: kv)
  moreover from 4 9 have "set (entries t) \<subseteq> set (entries t')" by auto
  moreover from 5 9 10 have
    "\<forall>kv \<in> set (kv # kvs). \<exists>e \<in> set (entries t'). equiv_keys cmp (fst kv) (fst e)"
    by (auto simp: kv)
  ultimately show ?case using 7 by blast
qed

lemma map_ctor_inv: "map_inv cmp (map_ctor w this) this Tip"
  by (simp add: map_inv_def map_shape_def map_ctor_def rbt_def)

subsection \<open>Rotations seen through a traversal\<close>

lemma map_shape_rotated:
  assumes sh: "map_shape w this (plug fs s)"
    and at: "tree_at h' fs s'" and ad: "addrs s' = addrs s"
    and rt: "rt' = ptr (plug fs s')"
  shows "map_shape (w\<lparr>nodes := h', maps := (maps w)(this \<mapsto>
      \<lparr>root = rt', tree_size = length (addrs (plug fs s))\<rparr>)\<rparr>) this (plug fs s')"
proof -
  from ad have "addrs (plug fs s') = addrs (plug fs s)" by (rule addrs_plug_cong)
  with at rt show ?thesis
    by (simp add: map_shape_def tree_at_plug)
qed

lemma leftRotate_contents:
  assumes sh: "map_shape w this (plug fs (Bin a x kx vx cx (Bin b y ky vy cy c)))"
  shows "\<exists>h' rt'. leftRotate (nodes w) (ptr (plug fs (Bin a x kx vx cx (Bin b y ky vy cy c)))) (Some x)
        = (ok (h', rt') :: (_, 's) result option)
    \<and> contents (w\<lparr>nodes := h', maps := (maps w)(this \<mapsto> \<lparr>root = rt',
          tree_size = length (addrs (plug fs (Bin a x kx vx cx (Bin b y ky vy cy c))))\<rparr>)\<rparr>) this
        = ok (entries (plug fs (Bin a x kx vx cx (Bin b y ky vy cy c))))"
proof -
  let ?s = "Bin a x kx vx cx (Bin b y ky vy cy c)"
  let ?s' = "Bin (Bin a x kx vx cx b) y ky vy cy c"
  from sh have "tree_at (nodes w) fs ?s"
    by (simp add: map_shape_def tree_at_plug)
  from leftRotate_at [OF this, of "ptr (plug fs ?s)"] obtain h' where
    rot: "leftRotate (nodes w) (ptr (plug fs ?s)) (Some x)
        = (ok (h', if fs = [] then Some y else ptr (plug fs ?s)) :: (_, 's) result option)"
    and at: "tree_at h' fs ?s'"
    by blast
  have rt: "(if fs = [] then Some y else ptr (plug fs ?s)) = ptr (plug fs ?s')"
    by (simp add: ptr_plug)
  have "map_shape (w\<lparr>nodes := h', maps := (maps w)(this \<mapsto>
      \<lparr>root = (if fs = [] then Some y else ptr (plug fs ?s)),
       tree_size = length (addrs (plug fs ?s))\<rparr>)\<rparr>) this (plug fs ?s')"
    using sh at _ rt by (rule map_shape_rotated) simp
  from contents_shape [OF this] have "contents (w\<lparr>nodes := h', maps := (maps w)(this \<mapsto>
      \<lparr>root = (if fs = [] then Some y else ptr (plug fs ?s)),
       tree_size = length (addrs (plug fs ?s))\<rparr>)\<rparr>) this = ok (entries (plug fs ?s))"
    by (simp add: entries_plug_cong [of ?s' ?s])
  with rot show ?thesis by blast
qed

lemma rightRotate_contents:
  assumes sh: "map_shape w this (plug fs (Bin (Bin a y ky vy cy b) x kx vx cx c))"
  shows "\<exists>h' rt'. rightRotate (nodes w) (ptr (plug fs (Bin (Bin a y ky vy cy b) x kx vx cx c))) (Some x)
        = (ok (h', rt') :: (_, 's) result option)
    \<and> contents (w\<lparr>nodes := h', maps := (maps w)(this \<mapsto> \<lparr>root = rt',
          tree_size = length (addrs (plug fs (Bin (Bin a y ky vy cy b) x kx vx cx c)))\<rparr>)\<rparr>) this
        = ok (entries (plug fs (Bin (Bin a y ky vy cy b) x kx vx cx c)))"
proof -
  let ?s = "Bin (Bin a y ky vy cy b) x kx vx cx c"
  let ?s' = "Bin a y ky vy cy (Bin b x kx vx cx c)"
  from sh have "tree_at (nodes w) fs ?s"
    by (simp add: map_shape_def tree_at_plug)
  from rightRotate_at [OF this, of "ptr (plug fs ?s)"] obtain h' where
    rot: "rightRotate (nodes w) (ptr (plug fs ?s)) (Some x)
        = (ok (h', if fs = [] then Some y else ptr (plug fs ?s)) :: (_, 's) result option)"
    and at: "tree_at h' fs ?s'"
    by blast
  have rt: "(if fs = [] then Some y else ptr (plug fs ?s)) = ptr (plug fs ?s')"
    by (simp add: ptr_plug)
  have "map_shape (w\<lparr>nodes := h', maps := (maps w)(this \<mapsto>
      \<lparr>root = (if fs = [] then Some y else ptr (plug fs ?s)),
       tree_size = length (addrs (plug fs ?s))\<rparr>)\<rparr>) this (plug fs ?s')"
    using sh at _ rt by (rule map_shape_rotated) simp
  from contents_shape [OF this] have "contents (w\<lparr>nodes := h', maps := (maps w)(this \<mapsto>
      \<lparr>root = (if fs = [] then Some y else ptr (plug fs ?s)),
       tree_size = length (addrs (plug fs ?s))\<rparr>)\<rparr>) this = ok (entries (plug fs ?s))"
    by (simp add: entries_plug_cong [of ?s' ?s])
  with rot show ?thesis by blast
qed

lemma insert_all_contents:
  assumes swo: "strict_weak_order cmp"
  shows "\<exists>w es. insert_all cmp (map_ctor w0 this) this kvs = ok w
      \<and> contents w this = ok es
      \<and> sorted_wrt cmp (map fst es)
      \<and> set es \<subseteq> set kvs
      \<and> (\<forall>kv \<in> set kvs. \<exists>e \<in> set es. equiv_keys cmp (fst kv) (fst e))"
proof -
  from insert_all_inv [OF swo map_ctor_inv, of w0 this kvs] obtain w t where
    1: "insert_all cmp (map_ctor w0 this) this kvs = ok w"
    and 2: "map_inv cmp w this t"
    and 3: "set (entries t) \<subseteq> set kvs"
    and 4: "\<forall>kv \<in> set kvs. \<exists>e \<in> set (entries t). equiv_keys cmp (fst kv) (fst e)"
    by auto
  from 2 have sh: "map_shape w this t" and b: "bst cmp t" by (simp_all add: map_inv_def)
  from swo_trans [OF swo] b have "sorted_wrt cmp (map fst (entries t))"
    by (rule bst_sorted)
  with 1 3 4 contents_shape [OF sh] show ?thesis by blast
qed

text \<open>C3. Inserting any list of entries into a newly constructed map returns, and the
  traversal from \<^verbatim>\<open>begin()\<close> to \<^verbatim>\<open>end()\<close> of the map obtained then
  returns entries whose keys are strictly increasing under the comparator (every earlier key
  is below every later one), all of them inserted entries, with one entry for the equivalence
  class of every inserted key. Moreover \<^verbatim>\<open>leftRotate\<close> at a node that has a right
  child, and \<^verbatim>\<open>rightRotate\<close> at a node that has a left child, anywhere in the tree
  of a map, return without fault and leave the traversal of the map as it was.\<close>

theorem inorder_sorted:
  assumes "strict_weak_order cmp"
  shows "(\<exists>w es. insert_all cmp (map_ctor w0 this) this kvs = ok w
      \<and> contents w this = ok es
      \<and> sorted_wrt cmp (map fst es)
      \<and> set es \<subseteq> set kvs
      \<and> (\<forall>kv \<in> set kvs. \<exists>e \<in> set es. equiv_keys cmp (fst kv) (fst e)))
    \<and> (\<forall>w1 fs a x kx vx cx b y ky vy cy c.
        map_shape w1 this (plug fs (Bin a x kx vx cx (Bin b y ky vy cy c))) \<longrightarrow>
        (\<exists>h' rt'. leftRotate (nodes w1) (root (the (maps w1 this))) (Some x) = (ok (h', rt') :: (_, 's) result option)
          \<and> contents (w1\<lparr>nodes := h', maps := (maps w1)(this \<mapsto>
               \<lparr>root = rt', tree_size = tree_size (the (maps w1 this))\<rparr>)\<rparr>) this
             = (contents w1 this :: ((('a \<times> 'b) list, iterator) result option))))
    \<and> (\<forall>w1 fs a x kx vx cx b y ky vy cy c.
        map_shape w1 this (plug fs (Bin (Bin a y ky vy cy b) x kx vx cx c)) \<longrightarrow>
        (\<exists>h' rt'. rightRotate (nodes w1) (root (the (maps w1 this))) (Some x) = (ok (h', rt') :: (_, 's) result option)
          \<and> contents (w1\<lparr>nodes := h', maps := (maps w1)(this \<mapsto>
               \<lparr>root = rt', tree_size = tree_size (the (maps w1 this))\<rparr>)\<rparr>) this
             = (contents w1 this :: ((('a \<times> 'b) list, iterator) result option))))"
proof (intro conjI allI impI)
  show "\<exists>w es. insert_all cmp (map_ctor w0 this) this kvs = ok w
      \<and> contents w this = ok es
      \<and> sorted_wrt cmp (map fst es)
      \<and> set es \<subseteq> set kvs
      \<and> (\<forall>kv \<in> set kvs. \<exists>e \<in> set es. equiv_keys cmp (fst kv) (fst e))"
    using assms by (rule insert_all_contents)
next
  fix w1 :: "('a, 'b) world" and fs a x kx vx cx b y ky vy cy c
  assume sh: "map_shape w1 this (plug fs (Bin a x kx vx cx (Bin b y ky vy cy c)))"
  then have m: "maps w1 this = Some \<lparr>root = ptr (plug fs (Bin a x kx vx cx (Bin b y ky vy cy c))),
      tree_size = length (addrs (plug fs (Bin a x kx vx cx (Bin b y ky vy cy c))))\<rparr>"
    by (simp add: map_shape_def)
  from leftRotate_contents [OF sh] contents_shape [OF sh]
  show "\<exists>h' rt'. leftRotate (nodes w1) (root (the (maps w1 this))) (Some x) = (ok (h', rt') :: (_, 's) result option)
          \<and> contents (w1\<lparr>nodes := h', maps := (maps w1)(this \<mapsto>
               \<lparr>root = rt', tree_size = tree_size (the (maps w1 this))\<rparr>)\<rparr>) this
             = contents w1 this"
    by (simp add: m)
next
  fix w1 :: "('a, 'b) world" and fs a x kx vx cx b y ky vy cy c
  assume sh: "map_shape w1 this (plug fs (Bin (Bin a y ky vy cy b) x kx vx cx c))"
  then have m: "maps w1 this = Some \<lparr>root = ptr (plug fs (Bin (Bin a y ky vy cy b) x kx vx cx c)),
      tree_size = length (addrs (plug fs (Bin (Bin a y ky vy cy b) x kx vx cx c)))\<rparr>"
    by (simp add: map_shape_def)
  from rightRotate_contents [OF sh] contents_shape [OF sh]
  show "\<exists>h' rt'. rightRotate (nodes w1) (root (the (maps w1 this))) (Some x) = (ok (h', rt') :: (_, 's) result option)
          \<and> contents (w1\<lparr>nodes := h', maps := (maps w1)(this \<mapsto>
               \<lparr>root = rt', tree_size = tree_size (the (maps w1 this))\<rparr>)\<rparr>) this
             = contents w1 this"
    by (simp add: m)
qed

theorem inorder_sorted_witness:
  "(\<exists>(w :: (nat, nat) world) es.
      insert_all (<) (map_ctor world_init 0) 0 [(10, 1), (20, 2), (5, 3), (15, 4), (30, 5)] = ok w
      \<and> contents w 0 = ok es
      \<and> sorted_wrt (<) (map fst es)
      \<and> set es \<subseteq> set [(10, 1), (20, 2), (5, 3), (15, 4), (30, 5)])
   \<and> (\<exists>(w1 :: (nat, nat) world) h' rt'.
      insert_all (<) (map_ctor world_init 0) 0 [(1, 10), (2, 20)] = ok w1
      \<and> leftRotate (nodes w1) (root (the (maps w1 0))) (Some 0) = (ok (h', rt') :: (_, unit) result option)
      \<and> contents (w1\<lparr>nodes := h', maps := (maps w1)(0 \<mapsto>
               \<lparr>root = rt', tree_size = tree_size (the (maps w1 0))\<rparr>)\<rparr>) 0
         = contents w1 0)"
proof -
  have swo: "strict_weak_order ((<) :: nat \<Rightarrow> nat \<Rightarrow> bool)"
    by (auto simp: strict_weak_order_def equiv_keys_def)
  note main = inorder_sorted [OF swo, of world_init 0
      "[(10, 1), (20, 2), (5, 3), (15, 4), (30, 5)] :: (nat \<times> nat) list"]
  let ?t = "Bin Tip 0 1 10 False (Bin Tip 1 2 20 True Tip) :: (nat, nat) shape"
  have "\<exists>w1 :: (nat, nat) world.
     insert_all (<) (map_ctor world_init 0) 0 [(1, 10), (2, 20)] = ok w1
     \<and> map_shape w1 0 (plug [] ?t)"
    by (simp add: run_prims run_tree run_map map_shape_def)
  then obtain w1 :: "(nat, nat) world" where
    w1: "insert_all (<) (map_ctor world_init 0) 0 [(1, 10), (2, 20)] = ok w1"
    and sh: "map_shape w1 0 (plug [] ?t)"
    by blast
  from main [THEN conjunct2, THEN conjunct1, rule_format, OF sh] have "\<exists>h' rt'.
      leftRotate (nodes w1) (root (the (maps w1 0))) (Some 0) = (ok (h', rt') :: (_, unit) result option)
      \<and> contents (w1\<lparr>nodes := h', maps := (maps w1)(0 \<mapsto>
               \<lparr>root = rt', tree_size = tree_size (the (maps w1 0))\<rparr>)\<rparr>) 0
         = contents w1 0" .
  with w1 have "\<exists>(w1 :: (nat, nat) world) h' rt'.
      insert_all (<) (map_ctor world_init 0) 0 [(1, 10), (2, 20)] = ok w1
      \<and> leftRotate (nodes w1) (root (the (maps w1 0))) (Some 0) = (ok (h', rt') :: (_, unit) result option)
      \<and> contents (w1\<lparr>nodes := h', maps := (maps w1)(0 \<mapsto>
               \<lparr>root = rt', tree_size = tree_size (the (maps w1 0))\<rparr>)\<rparr>) 0
         = contents w1 0"
    by blast
  moreover from main [THEN conjunct1] have "\<exists>(w :: (nat, nat) world) es.
      insert_all (<) (map_ctor world_init 0) 0 [(10, 1), (20, 2), (5, 3), (15, 4), (30, 5)] = ok w
      \<and> contents w 0 = ok es
      \<and> sorted_wrt (<) (map fst es)
      \<and> set es \<subseteq> set [(10, 1), (20, 2), (5, 3), (15, 4), (30, 5)]"
    by blast
  ultimately show ?thesis by (rule conjI [rotated])
qed

text \<open>C5. In a map that satisfies its representation invariant and holds no entry
  equivalent to \<open>k\<close>, \<^verbatim>\<open>at(k)\<close> raises \<^verbatim>\<open>index_out_of_bound\<close> and the world it
  leaves behind is the world it was called in. \<^verbatim>\<open>operator[](k)\<close> on the same map
  returns the default value; in the world it returns \<^verbatim>\<open>at(k)\<close> succeeds with the
  default value, and the traversal of the map has gained exactly the entry
  \<open>(k, dflt)\<close>.\<close>

theorem at_absent_then_subscript:
  assumes "strict_weak_order cmp" and "map_inv cmp w this t"
    and "\<forall>e \<in> set (entries t). \<not> equiv_keys cmp k (fst e)"
  shows "map_at cmp w this k = Some (Raise index_out_of_bound w)
    \<and> (\<exists>w' es'. map_subscript cmp dflt w this k = ok (w', dflt)
        \<and> map_at cmp w' this k = ok dflt
        \<and> contents w this = ok (entries t)
        \<and> contents w' this = ok es'
        \<and> set es' = insert (k, dflt) (set (entries t))
        \<and> length es' = Suc (length (entries t)))"
proof -
  from assms(2) have sh: "map_shape w this t" by (simp add: map_inv_def)
  then have h: "heap_tree (nodes w) None t"
    and m: "maps w this = Some \<lparr>root = ptr t, tree_size = length (addrs t)\<rparr>"
    by (simp_all add: map_shape_def)
  have 1: "map_at cmp w this k = Some (Raise index_out_of_bound w)"
    using sh assms(3) by (rule map_at_absent)
  from map_insert_absent [OF assms, of dflt] obtain w' t' where
    ins: "map_insert cmp w this (k, dflt) =
        ok (w', \<lparr>node = Some (fresh w), container = Some this\<rparr>, True)"
    and inv': "map_inv cmp w' this t'"
    and as: "set (assoc t') = insert (fresh w, k, dflt) (set (assoc t))"
    and len: "length (addrs t') = Suc (length (addrs t))"
    by blast
  from inv' have sh': "map_shape w' this t'" and b': "bst cmp t'"
    by (simp_all add: map_inv_def)
  from sh' have h': "heap_tree (nodes w') None t'" by (simp add: map_shape_def)
  from as have "(fresh w, k, dflt) \<in> set (assoc t')" by simp
  from heap_tree_assoc [OF h' this] have
    rd: "fld data_second (nodes w') (Some (fresh w)) = (ok dflt :: (_, ('a, 'b) world) result option)"
    by (auto simp: fld_at)
  have 2: "map_subscript cmp dflt w this k = ok (w', dflt)"
    by (simp add: map_subscript_def obj_def m findNode_def findNode_locate [OF h, of cmp k "[]"]
        locate_absent [OF assms(3)] ins rd)
  from as have en: "set (entries t') = insert (k, dflt) (set (entries t))"
    unfolding entries_assoc set_map by simp
  then have "(k, dflt) \<in> set (entries t')" by simp
  moreover have "equiv_keys cmp k k"
    using swo_irrefl [OF assms(1)] by (simp add: equiv_keys_def)
  ultimately have 3: "map_at cmp w' this k = ok dflt"
    by (rule map_at_present [OF assms(1) sh' b'])
  from len have 4: "length (entries t') = Suc (length (entries t))"
    by (simp add: addrs_assoc entries_assoc)
  from 1 2 3 4 en contents_shape [OF sh] contents_shape [OF sh'] show ?thesis
    by blast
qed

theorem at_absent_then_subscript_witness:
  "\<exists>(w :: (nat, nat) world) w'.
     insert_all (<) (map_ctor world_init 0) 0 [(2, 20), (1, 10), (3, 30)] = ok w
     \<and> map_at (<) w 0 99 = Some (Raise index_out_of_bound w)
     \<and> map_subscript (<) 0 w 0 99 = ok (w', 0)
     \<and> map_at (<) w' 0 99 = ok 0
     \<and> contents w 0 = ok [(1, 10), (2, 20), (3, 30)]"
proof -
  let ?t = "Bin (Bin Tip 1 1 10 True Tip) 0 2 20 False (Bin Tip 2 3 30 True Tip) :: (nat, nat) shape"
  have "\<exists>w :: (nat, nat) world.
     insert_all (<) (map_ctor world_init 0) 0 [(2, 20), (1, 10), (3, 30)] = ok w
     \<and> map_shape w 0 ?t \<and> fresh w = 3"
    by (simp add: run_prims run_tree run_map map_shape_def)
  then obtain w :: "(nat, nat) world" where
    w: "insert_all (<) (map_ctor world_init 0) 0 [(2, 20), (1, 10), (3, 30)] = ok w"
    and t: "map_shape w 0 ?t" and f: "fresh w = 3"
    by blast
  have swo: "strict_weak_order ((<) :: nat \<Rightarrow> nat \<Rightarrow> bool)"
    by (auto simp: strict_weak_order_def equiv_keys_def)
  have inv: "map_inv (<) w 0 ?t"
    using t f by (simp add: map_inv_def rbt_def)
  have ab: "\<forall>e \<in> set (entries ?t). \<not> equiv_keys (<) (99 :: nat) (fst e)"
    by (simp add: equiv_keys_def)
  from at_absent_then_subscript [OF swo inv ab, of 0] w show ?thesis
    by auto
qed

end
